theory Spec2Isabelle
  imports Main "HOL-Library.Multiset"
begin

section \<open>Faults\<close>

text \<open>
  The C code has no error values of its own on the paths verified here: what can go wrong
  is a read or write through a pointer that is \<open>NULL\<close> (or \<open>NULL + 1\<close>), which is
  undefined behaviour and in practice a crash. Each such access is a branch of the model.
\<close>

datatype fault =
    NullDeref   \<comment> \<open>a read through a null pointer, e.g. \<open>left->data\<close> with \<open>left == NULL\<close>\<close>
  | NullWrite   \<comment> \<open>a write through a null pointer, e.g. \<open>*arrayend = 0\<close>\<close>
  | WildPointer \<comment> \<open>use of \<open>NULL + 1\<close>, the result of \<open>strchr(..) + 1\<close> on a miss\<close>
  | PathOverflow \<comment> \<open>\<open>snprintf\<close> told to write past the \<open>PATH_MAX + 1\<close> bytes allocated\<close>

section \<open>pacman.c: merge with duplicate deletion\<close>

text \<open>
  An \<open>alpm_list_t\<close> is a doubly linked list of nodes, each holding a \<open>void *data\<close>.
  A well-formed list is modelled by the sequence of its \<open>data\<close> fields, in \<open>next\<close> order;
  a data pointer is \<open>'a option\<close>, \<open>None\<close> for \<open>NULL\<close>. The two arguments of the merge
  are separate lists (no shared node). The comparison callback \<open>fn\<close> is a parameter.
  The calls of the disposal callback \<open>fnf\<close> are recorded, in order, in a trace.
\<close>

type_synonym 'a alpm_list = "'a option list"

type_synonym 'a alpm_list_fn_cmp = "'a option \<Rightarrow> 'a option \<Rightarrow> int"

text \<open>
  \<open>alpm_list_remove_item(listhead, target, fn)\<close>, as the merge calls it: with
  \<open>target == listhead\<close>, the first branch. It unlinks the head, calls \<open>fn\<close> on its data
  when the data is not \<open>NULL\<close>, frees the node and returns \<open>target->next\<close>.
  With \<open>target == NULL\<close> the read of \<open>target->next\<close> faults.
\<close>

definition fnf_call :: "'a option \<Rightarrow> 'a list" where
  \<comment> \<open>\<open>if (target->data) fn(target->data);\<close>\<close>
  "fnf_call d = (case d of None \<Rightarrow> [] | Some v \<Rightarrow> [v])"

fun alpm_list_remove_item ::
  "'a alpm_list \<Rightarrow> 'a list \<Rightarrow> fault + ('a alpm_list \<times> 'a list)" where
  "alpm_list_remove_item [] tr = Inl NullDeref"
| "alpm_list_remove_item (d # nxt) tr = Inr (nxt, tr @ fnf_call d)"

text \<open>
  The \<open>do ... while (compare == 0)\<close> loop of lines 68-79, which picks the first node of
  the result. It reads \<open>left->data\<close> and \<open>right->data\<close> with no test of either pointer.
  The result is the data of \<open>newlist\<close>, the remaining \<open>left\<close> and \<open>right\<close>, and the trace.
\<close>

function mmerge_first ::
  "'a alpm_list_fn_cmp \<Rightarrow> 'a alpm_list \<Rightarrow> 'a alpm_list \<Rightarrow> 'a list
     \<Rightarrow> fault + ('a option \<times> 'a alpm_list \<times> 'a alpm_list \<times> 'a list)" where
  "mmerge_first fn [] right tr = Inl NullDeref"
| "mmerge_first fn (l # ls) [] tr = Inl NullDeref"
| "mmerge_first fn (l # ls) (r # rs) tr =
     (let compare = fn l r in
      if compare > 0 then Inr (r, l # ls, rs, tr)
      else if compare < 0 then Inr (l, ls, r # rs, tr)
      else (case alpm_list_remove_item (l # ls) tr of
              Inl e \<Rightarrow> Inl e
            | Inr (left', tr') \<Rightarrow> mmerge_first fn left' (r # rs) tr'))"
  by pat_completeness auto
termination
  by (relation "measure (\<lambda>(fn, left, right, tr). length left)") auto

text \<open>
  The \<open>while ((left != NULL) && (right != NULL))\<close> loop of lines 85-102; \<open>out\<close> is the
  sequence from \<open>newlist\<close> to \<open>lp\<close>. It returns when either list is exhausted.
\<close>

function mmerge_loop ::
  "'a alpm_list_fn_cmp \<Rightarrow> 'a alpm_list \<Rightarrow> 'a alpm_list \<Rightarrow> 'a alpm_list \<Rightarrow> 'a list
     \<Rightarrow> fault + ('a alpm_list \<times> 'a alpm_list \<times> 'a alpm_list \<times> 'a list)" where
  "mmerge_loop fn [] right out tr = Inr ([], right, out, tr)"
| "mmerge_loop fn (l # ls) [] out tr = Inr (l # ls, [], out, tr)"
| "mmerge_loop fn (l # ls) (r # rs) out tr =
     (let compare = fn l r in
      if compare < 0 then mmerge_loop fn ls (r # rs) (out @ [l]) tr
      else if compare > 0 then mmerge_loop fn (l # ls) rs (out @ [r]) tr
      else (case alpm_list_remove_item (l # ls) tr of
              Inl e \<Rightarrow> Inl e
            | Inr (left', tr') \<Rightarrow> mmerge_loop fn left' (r # rs) out tr'))"
  by pat_completeness auto
termination
  by (relation "measure (\<lambda>(fn, left, right, out, tr). length left + length right)") auto

text \<open>
  \<open>alpm_list_mmerge_dedupe(left, right, fn, fnf)\<close>: the merged list and the trace of the
  calls of \<open>fnf\<close>. Lines 103-110 link what is left of one input behind \<open>lp\<close>; lines
  112-115 walk to the last node to set the head's \<open>prev\<close>, which does not change the
  sequence.
\<close>

definition alpm_list_mmerge_dedupe ::
  "'a alpm_list \<Rightarrow> 'a alpm_list \<Rightarrow> 'a alpm_list_fn_cmp \<Rightarrow> fault + ('a alpm_list \<times> 'a list)" where
  "alpm_list_mmerge_dedupe left right fn =
     (if left = [] then Inr (right, [])
      else if right = [] then Inr (left, [])
      else (case mmerge_first fn left right [] of
              Inl e \<Rightarrow> Inl e
            | Inr (newlist, left1, right1, tr1) \<Rightarrow>
                (case mmerge_loop fn left1 right1 [newlist] tr1 of
                   Inl e \<Rightarrow> Inl e
                 | Inr (left2, right2, out, tr2) \<Rightarrow>
                     Inr (if left2 \<noteq> [] then out @ left2
                          else if right2 \<noteq> [] then out @ right2
                          else out, tr2))))"

text \<open>
  What the contract asks of the comparison callback: the sign of \<open>fn a b\<close> is the
  opposite of the sign of \<open>fn b a\<close>, and \<open>\<le>\<close> is transitive. Elements that compare
  equal need not be the same pointer.
\<close>

definition total_order_cmp :: "'a alpm_list_fn_cmp \<Rightarrow> bool" where
  "total_order_cmp fn \<longleftrightarrow>
     (\<forall>a b. (fn a b < 0) = (fn b a > 0)) \<and>
     (\<forall>a b c. fn a b \<le> 0 \<and> fn b c \<le> 0 \<longrightarrow> fn a c \<le> 0)"

text \<open>
  For the statements below: an element of \<open>left\<close> is a duplicate when some element of
  \<open>right\<close> compares equal to it, and \<open>fnf_calls xs\<close> is the trace of disposal calls made
  when every node of \<open>xs\<close> is removed in order.
\<close>

definition dup_of :: "'a alpm_list_fn_cmp \<Rightarrow> 'a alpm_list \<Rightarrow> 'a option \<Rightarrow> bool" where
  "dup_of fn right l \<longleftrightarrow> (\<exists>r\<in>set right. fn l r = 0)"

definition fnf_calls :: "'a alpm_list \<Rightarrow> 'a list" where
  "fnf_calls xs = concat (map fnf_call xs)"

text \<open>A concrete comparison callback: integers by value, \<open>NULL\<close> before all.\<close>

fun int_cmp :: "int alpm_list_fn_cmp" where
  "int_cmp None None = 0"
| "int_cmp None (Some y) = -1"
| "int_cmp (Some x) None = 1"
| "int_cmp (Some x) (Some y) = (if x < y then -1 else if x = y then 0 else 1)"

section \<open>C strings in a buffer\<close>

text \<open>
  The recipe text is handed to the parser as a \<open>char *\<close> into a NUL-terminated buffer,
  and the parser writes into it. The buffer is modelled as the list of its bytes, a
  pointer into it as an offset, and a pointer that may be \<open>NULL\<close> as \<open>nat option\<close>.
  \<open>get_file_as_buffer\<close> hands over the text followed by the terminator, so the
  properties below take the buffer \<open>text @ [NUL]\<close>. A read at or past the end of the list
  gives NUL and a write there does nothing; in a buffer that ends with NUL no read and no
  write of the model gets there. The functions of \<open>string.h\<close> follow the C standard.
\<close>

type_synonym mem = "char list"

definition NUL :: char where
  "NUL = CHR 0x00"

definition cstr :: "mem \<Rightarrow> nat \<Rightarrow> string" where
  \<comment> \<open>the string a pointer designates: the bytes before the first NUL\<close>
  "cstr m p = takeWhile (\<lambda>c. c \<noteq> NUL) (drop p m)"

definition peek :: "mem \<Rightarrow> nat \<Rightarrow> char" where
  \<comment> \<open>\<open>*p\<close>\<close>
  "peek m p = (if p < length m then m ! p else NUL)"

definition poke :: "mem \<Rightarrow> nat \<Rightarrow> char \<Rightarrow> mem" where
  \<comment> \<open>\<open>*p = c\<close>\<close>
  "poke m p c = m[p := c]"

definition strlen :: "mem \<Rightarrow> nat \<Rightarrow> nat" where
  "strlen m p = length (cstr m p)"

definition strchr :: "mem \<Rightarrow> nat \<Rightarrow> char \<Rightarrow> nat option" where
  "strchr m p c =
     (let k = length (takeWhile (\<lambda>x. x \<noteq> c) (cstr m p))
      in if k < strlen m p \<or> c = NUL then Some (p + k) else None)"

definition strspn :: "mem \<Rightarrow> nat \<Rightarrow> string \<Rightarrow> nat" where
  "strspn m p accept = length (takeWhile (\<lambda>c. c \<in> set accept) (cstr m p))"

definition strcspn :: "mem \<Rightarrow> nat \<Rightarrow> string \<Rightarrow> nat" where
  "strcspn m p reject = length (takeWhile (\<lambda>c. c \<notin> set reject) (cstr m p))"

definition memmove :: "mem \<Rightarrow> nat \<Rightarrow> nat \<Rightarrow> nat \<Rightarrow> mem" where
  \<comment> \<open>\<open>memmove(dst, src, n)\<close>, inside the buffer\<close>
  "memmove m dst src n =
     map (\<lambda>i. if dst \<le> i \<and> i < dst + n then peek m (src + (i - dst)) else m ! i)
       [0..<length m]"

definition whitespace :: string where
  \<comment> \<open>the whitespace of the C locale: space, \<open>\t \n \v \f \r\<close>\<close>
  "whitespace = [CHR '' '', CHR 0x09, CHR 0x0A, CHR 0x0B, CHR 0x0C, CHR 0x0D]"

definition isspace :: "char \<Rightarrow> bool" where
  "isspace c \<longleftrightarrow> c \<in> set whitespace"

text \<open>
  \<open>strtok(str, delim)\<close> keeps the place to resume in a static pointer, here \<open>olds\<close>,
  read when \<open>str\<close> is \<open>NULL\<close>. It skips delimiters, returns \<open>NULL\<close> at the end of the
  string, and otherwise ends the token by writing a NUL over the delimiter that follows it.
  The result is the token, the buffer and the new \<open>olds\<close>.
\<close>

definition strtok :: "mem \<Rightarrow> nat option \<Rightarrow> string \<Rightarrow> nat \<Rightarrow> nat option \<times> mem \<times> nat" where
  "strtok m str delim olds =
     (let s0 = (case str of Some p \<Rightarrow> p | None \<Rightarrow> olds);
          s = s0 + strspn m s0 delim
      in if peek m s = NUL then (None, m, s)
         else (let e = s + strcspn m s delim
               in if peek m e = NUL then (Some s, m, e)
                  else (Some s, poke m e NUL, e + 1)))"

section \<open>Helpers of util.c and the keywords of depends.h\<close>

text \<open>
  Modelled from the spec: \<open>strtrim\<close> is defined in util.c, outside depends.c and
  pacman.c. The spec has the text trimmed of leading and trailing whitespace before
  matching. The callers pass a pointer into the buffer and ignore the result, so the
  trimming is in place, on the whole NUL-terminated string at the pointer: the text
  after the leading whitespace is moved down to the pointer, and a NUL is stored behind
  the last character that is not whitespace.
\<close>

definition strtrim :: "mem \<Rightarrow> nat \<Rightarrow> mem" where
  "strtrim m str =
     (let s = cstr m str in
      if s = [] then m
      else (let lead = length (takeWhile isspace s);
                m1 = (if lead \<noteq> 0
                      then memmove m str (str + lead) (strlen m (str + lead) + 1) else m);
                t = cstr m1 str
            in if t = [] then m1
               else poke m1 (str + length (rev (dropWhile isspace (rev t)))) NUL))"

text \<open>
  Modelled from the spec: \<open>line_starts_with\<close> is defined in util.c, outside depends.c
  and pacman.c. A line is taken
  when it starts with the keyword; the callers compare the result with \<open>0\<close>, so it is
  \<open>0\<close> exactly when the string at the pointer begins with the keyword.
\<close>

definition line_starts_with :: "mem \<Rightarrow> nat \<Rightarrow> string \<Rightarrow> int" where
  "line_starts_with m line starts_with =
     (if take (length starts_with) (cstr m line) = starts_with then 0 else 1)"

text \<open>
  Modelled from the spec: the macro \<open>PKGBUILD_DEPENDS\<close> is defined in depends.h. The
  spec names the keyword \<open>depends=\<close>.
\<close>

definition PKGBUILD_DEPENDS :: string where
  "PKGBUILD_DEPENDS = ''depends=''"

text \<open>
  Modelled from the spec: the macro \<open>PKGBUILD_MAKEDEPENDS\<close> is defined in depends.h.
  The spec names the keyword \<open>makedepends=\<close>.
\<close>

definition PKGBUILD_MAKEDEPENDS :: string where
  "PKGBUILD_MAKEDEPENDS = ''makedepends=''"

text \<open>
  Modelled from the spec: the macro \<open>PKGBUILD_OPTDEPENDS\<close> is defined in depends.h. The
  spec names the keyword \<open>optdepends=\<close>.
\<close>

definition PKGBUILD_OPTDEPENDS :: string where
  "PKGBUILD_OPTDEPENDS = ''optdepends=''"

section \<open>depends.c: the recipe parser\<close>

text \<open>
  A dependency list is an \<open>alpm_list_t\<close> of strings owned by the list. libalpm's
  \<open>alpm_list_find_str\<close> looks a string up by \<open>strcmp\<close>, \<open>alpm_list_add\<close> appends at the end.
\<close>

definition alpm_list_find_str :: "string list \<Rightarrow> string \<Rightarrow> string option" where
  "alpm_list_find_str haystack needle = find (\<lambda>s. s = needle) haystack"

definition alpm_list_add :: "'a list \<Rightarrow> 'a \<Rightarrow> 'a list" where
  "alpm_list_add list d = list @ [d]"

definition is_quote :: "char \<Rightarrow> bool" where
  \<comment> \<open>\<open>c == '\'' || c == '\"'\<close>\<close>
  "is_quote c \<longleftrightarrow> c = CHR 0x27 \<or> c = CHR 0x22"

definition strip_chars :: string where
  \<comment> \<open>the reject set of line 42: \<open>= < > " '\<close>\<close>
  "strip_chars = [CHR ''='', CHR ''<'', CHR ''>'', CHR 0x22, CHR 0x27]"

definition token_delims :: string where
  \<comment> \<open>the delimiters of lines 36 and 55: space and newline\<close>
  "token_delims = [CHR '' '', CHR 0x0A]"

text \<open>
  The body of the \<open>while (token)\<close> loop of \<open>parse_bash_array\<close>, lines 38-53, up to the
  next \<open>strtok\<close>: the pointer after the optional leading quote, the buffer after the
  token has been cut, and the list after the token has been added if it is new. The
  \<open>::DEBUG\<close> line of lines 49-50 is left out.
\<close>

definition skip_quote :: "mem \<Rightarrow> nat \<Rightarrow> nat" where
  "skip_quote m token = (if is_quote (peek m token) then token + 1 else token)"

definition cut_token :: "mem \<Rightarrow> nat \<Rightarrow> bool \<Rightarrow> mem" where
  \<comment> \<open>lines 41-47; in raw mode an empty \<open>token\<close> follows a skipped quote, and \<open>ptr\<close> is
      that quote\<close>
  "cut_token m token stripdeps =
     (if stripdeps then poke m (token + strcspn m token strip_chars) NUL
      else (let ptr = token + strlen m token - 1
            in if is_quote (peek m ptr) then poke m ptr NUL else m))"

definition add_token :: "string list \<Rightarrow> string \<Rightarrow> string list" where
  "add_token deplist token =
     (if alpm_list_find_str deplist token = None then alpm_list_add deplist token
      else deplist)"

function parse_tokens ::
  "mem \<Rightarrow> nat option \<Rightarrow> nat \<Rightarrow> string list \<Rightarrow> bool \<Rightarrow> string list \<times> mem" where
  "parse_tokens m None olds deplist stripdeps = (deplist, m)"
| "parse_tokens m (Some token0) olds deplist stripdeps =
     (let token = skip_quote m token0;
          m1 = cut_token m token stripdeps;
          deplist1 = add_token deplist (cstr m1 token)
      in (case strtok m1 None token_delims olds of
            (token', m2, olds') \<Rightarrow> parse_tokens m2 token' olds' deplist1 stripdeps))"
  by pat_completeness auto

lemma length_poke [simp]: "length (poke m i c) = length m"
  by (simp add: poke_def)

lemma cstr_nil_iff: "cstr m p = [] \<longleftrightarrow> peek m p = NUL"
proof (cases "p < length m")
  case True
  then have "drop p m = m ! p # drop (Suc p) m" by (simp add: Cons_nth_drop_Suc)
  then show ?thesis using True by (simp add: cstr_def peek_def)
next
  case False
  then show ?thesis by (simp add: cstr_def peek_def)
qed

lemma takeWhile_drop_le:
  "k \<le> length (takeWhile P xs) \<Longrightarrow> takeWhile P (drop k xs) = drop k (takeWhile P xs)"
proof (induction xs arbitrary: k)
  case Nil then show ?case by simp
next
  case (Cons x xs)
  then show ?case by (cases k) (auto split: if_splits)
qed

lemma cstr_add: "k \<le> length (cstr m p) \<Longrightarrow> cstr m (p + k) = drop k (cstr m p)"
  unfolding cstr_def using takeWhile_drop_le[of k "\<lambda>c. c \<noteq> NUL" "drop p m"]
  by (simp add: add.commute)

lemma length_cstr_le: "p + length (cstr m p) \<le> max p (length m)"
proof -
  have "length (cstr m p) \<le> length (drop p m)" unfolding cstr_def by (rule length_takeWhile_le)
  then show ?thesis by simp
qed

lemma cstr_nonempty_lt: "cstr m p \<noteq> [] \<Longrightarrow> p < length m"
  by (auto simp: cstr_def) (metis drop_all not_le_imp_less takeWhile.simps(1))

lemma strspn_le: "strspn m p d \<le> length (cstr m p)"
  unfolding strspn_def by (rule length_takeWhile_le)

lemma strcspn_le: "strcspn m p d \<le> length (cstr m p)"
  unfolding strcspn_def by (rule length_takeWhile_le)

lemma cstr_strspn: "cstr m (p + strspn m p d) = dropWhile (\<lambda>c. c \<in> set d) (cstr m p)"
  using cstr_add[OF strspn_le, of m p d] by (simp add: strspn_def dropWhile_eq_drop)

lemma cstr_strcspn: "cstr m (p + strcspn m p d) = dropWhile (\<lambda>c. c \<notin> set d) (cstr m p)"
  using cstr_add[OF strcspn_le, of m p d] by (simp add: strcspn_def dropWhile_eq_drop)

lemma strtok_progress:
  assumes "strtok m None d olds = (Some t, m', olds')"
  shows "length m' = length m \<and> olds < olds' \<and> olds' \<le> length m"
proof -
  let ?s = "olds + strspn m olds d"
  let ?e = "?s + strcspn m ?s d"
  from assms have ne: "peek m ?s \<noteq> NUL"
    by (auto simp: strtok_def Let_def split: if_splits)
  then have cne: "cstr m ?s \<noteq> []" by (simp add: cstr_nil_iff)
  then have slt: "?s < length m" by (rule cstr_nonempty_lt)
  have "hd (cstr m ?s) \<notin> set d" using cne hd_dropWhile[of "\<lambda>c. c \<in> set d" "cstr m olds"]
    by (simp add: cstr_strspn)
  then have pos: "strcspn m ?s d > 0" using cne unfolding strcspn_def
    by (cases "cstr m ?s") auto
  have ele: "?e \<le> length m" using length_cstr_le[of ?s m] strcspn_le[of m ?s d] slt by simp
  show ?thesis
  proof (cases "peek m ?e = NUL")
    case True
    with assms ne have "m' = m" "olds' = ?e" by (auto simp: strtok_def Let_def)
    then show ?thesis using pos ele by simp
  next
    case False
    with assms ne have m': "m' = poke m ?e NUL" "olds' = ?e + 1" by (auto simp: strtok_def Let_def)
    from False have "cstr m ?e \<noteq> []" by (simp add: cstr_nil_iff)
    then have "?e < length m" by (rule cstr_nonempty_lt)
    then show ?thesis using m' by simp
  qed
qed

lemma length_cut_token [simp]: "length (cut_token m t b) = length m"
  by (simp add: cut_token_def Let_def)

text \<open>Every \<open>strtok\<close> that returns a token moves \<open>olds\<close> forward inside the buffer, so the loop ends.\<close>

termination parse_tokens
proof (relation "measure (\<lambda>(m, token, olds, deplist, stripdeps).
          case token of None \<Rightarrow> 0 | Some t \<Rightarrow> 1 + (length m - olds))")
  show "wf (measure (\<lambda>(m, token, olds, deplist, stripdeps).
          case token of None \<Rightarrow> 0 | Some t \<Rightarrow> 1 + (length m - olds)))" by simp
next
  fix m :: mem and token0 olds :: nat and deplist :: "string list" and stripdeps :: bool
    and x xa xb xc y xd ya
  assume a: "x = skip_quote m token0" "xa = cut_token m x stripdeps"
    "(xc, y) = strtok xa None token_delims olds" "(xd, ya) = y"
  show "((xd, xc, ya, xb, stripdeps), (m, Some token0, olds, deplist, stripdeps))
          \<in> measure (\<lambda>(m, token, olds, deplist, stripdeps).
                case token of None \<Rightarrow> 0 | Some t \<Rightarrow> 1 + (length m - olds))"
  proof (cases xc)
    case None then show ?thesis by simp
  next
    case (Some t)
    with a have "strtok xa None token_delims olds = (Some t, xd, ya)" by simp
    from strtok_progress[OF this] have "length xd = length xa" "olds < ya" "ya \<le> length xa"
      by simp_all
    moreover have "length xa = length m" using a(2) by simp
    ultimately show ?thesis using Some by simp
  qed
qed

text \<open>
  \<open>parse_bash_array(deplist, deparray, stripdeps)\<close>: the first \<open>strtok\<close> is given
  \<open>deparray\<close>, so the value of \<open>olds\<close> before the call is not read.
\<close>

definition parse_bash_array :: "string list \<Rightarrow> mem \<Rightarrow> nat \<Rightarrow> bool \<Rightarrow> string list \<times> mem" where
  "parse_bash_array deplist m deparray stripdeps =
     (case strtok m (Some deparray) token_delims 0 of
        (token, m1, olds) \<Rightarrow> parse_tokens m1 token olds deplist stripdeps)"

text \<open>
  Lines 79-82 of \<open>pkgbuild_get_deps\<close>, the same as lines 110-113 of
  \<open>populate_pkg_deps\<close>: \<open>arrayend\<close>, the buffer after \<open>*arrayend = 0\<close>, and the pointer
  \<open>strchr(lineptr, '(') + 1\<close> given to \<open>parse_bash_array\<close>. \<open>*arrayend = 0\<close> with
  \<open>arrayend == NULL\<close> is a write through \<open>NULL\<close>; \<open>strchr(lineptr, '(') + 1\<close> on a miss is
  \<open>NULL + 1\<close>, which \<open>strtok\<close> then reads.
\<close>

definition array_bounds :: "mem \<Rightarrow> nat \<Rightarrow> fault + (nat \<times> mem \<times> nat)" where
  "array_bounds m lineptr =
     (case strchr m lineptr (CHR '')'') of
        None \<Rightarrow> Inl NullWrite
      | Some arrayend \<Rightarrow>
          (let m2 = poke m arrayend NUL
           in (case strchr m2 lineptr (CHR ''('') of
                 None \<Rightarrow> Inl WildPointer
               | Some paren \<Rightarrow> Inr (arrayend, m2, paren + 1))))"

text \<open>
  One turn of the loop of \<open>pkgbuild_get_deps\<close>, lines 70-83, from \<open>lineptr\<close> after the
  \<open>++\<close>: the buffer, \<open>bptr\<close> and \<open>deplist\<close> at the end of the turn.
\<close>

definition pkgbuild_get_deps_turn ::
  "mem \<Rightarrow> nat \<Rightarrow> string list \<Rightarrow> fault + (mem \<times> nat option \<times> string list)" where
  "pkgbuild_get_deps_turn m lineptr deplist =
     (let m1 = strtrim m lineptr
      in if line_starts_with m1 lineptr PKGBUILD_DEPENDS \<noteq> 0 \<and>
            line_starts_with m1 lineptr PKGBUILD_MAKEDEPENDS \<noteq> 0
         then Inr (m1, strchr m1 lineptr (CHR 0x0A), deplist)
         else (case array_bounds m1 lineptr of
                 Inl f \<Rightarrow> Inl f
               | Inr (arrayend, m2, deparray) \<Rightarrow>
                   (case parse_bash_array deplist m2 deparray True of
                      (deplist', m3) \<Rightarrow> Inr (m3, Some (arrayend + 1), deplist'))))"

lemma strtok_length: "strtok m str d olds = (t, m', olds') \<Longrightarrow> length m' = length m"
  by (auto simp: strtok_def Let_def split: if_splits)

lemma parse_tokens_length: "parse_tokens m t olds deplist b = (deplist', m') \<Longrightarrow> length m' = length m"
proof (induction m t olds deplist b arbitrary: deplist' m' rule: parse_tokens.induct)
  case (1 m olds deplist stripdeps)
  then show ?case by simp
next
  case (2 m token0 olds deplist stripdeps)
  obtain t2 m2 o2 where st: "strtok (cut_token m (skip_quote m token0) stripdeps) None token_delims olds = (t2, m2, o2)"
    by (metis prod_cases3)
  from "2.prems" st have "parse_tokens m2 t2 o2 (add_token deplist (cstr (cut_token m (skip_quote m token0) stripdeps) (skip_quote m token0))) stripdeps = (deplist', m')"
    by (simp add: Let_def)
  from "2.IH"[OF refl refl refl st[symmetric] refl this] have "length m' = length m2" .
  also have "\<dots> = length m" using strtok_length[OF st] by simp
  finally show ?case .
qed

lemma parse_bash_array_length:
  "parse_bash_array deplist m p b = (deplist', m') \<Longrightarrow> length m' = length m"
  unfolding parse_bash_array_def
  by (auto split: prod.splits dest!: strtok_length parse_tokens_length)

lemma length_memmove [simp]: "length (memmove m d s n) = length m"
  by (simp add: memmove_def)

lemma length_strtrim [simp]: "length (strtrim m p) = length m"
  by (simp add: strtrim_def Let_def)

lemma strchr_bounds:
  assumes "strchr m p c = Some q" and "c \<noteq> NUL"
  shows "p \<le> q \<and> q < length m"
proof -
  let ?k = "length (takeWhile (\<lambda>x. x \<noteq> c) (cstr m p))"
  from assms have k: "?k < length (cstr m p)" and q: "q = p + ?k"
    by (auto simp: strchr_def strlen_def Let_def split: if_splits)
  from k have "cstr m p \<noteq> []" by auto
  then have "p < length m" by (rule cstr_nonempty_lt)
  with length_cstr_le[of p m] k q show ?thesis by simp
qed

lemma newline_not_NUL [simp]: "CHR 0x0A \<noteq> NUL" "CHR '')'' \<noteq> NUL" "CHR ''('' \<noteq> NUL"
  by (simp_all add: NUL_def)

lemma array_bounds_facts:
  assumes "array_bounds m lineptr = Inr (arrayend, m2, deparray)"
  shows "lineptr \<le> arrayend \<and> arrayend < length m \<and> length m2 = length m"
proof -
  from assms obtain paren where a: "strchr m lineptr (CHR '')'') = Some arrayend"
    and m2: "m2 = poke m arrayend NUL"
    by (auto simp: array_bounds_def Let_def split: option.splits)
  from strchr_bounds[OF a] m2 show ?thesis by simp
qed

lemma pkgbuild_get_deps_turn_facts:
  assumes "pkgbuild_get_deps_turn m lineptr deplist = Inr (m', bptr', deplist')"
  shows "length m' = length m \<and> (\<forall>b. bptr' = Some b \<longrightarrow> lineptr \<le> b \<and> b \<le> length m)"
proof (cases "line_starts_with (strtrim m lineptr) lineptr PKGBUILD_DEPENDS \<noteq> 0 \<and>
              line_starts_with (strtrim m lineptr) lineptr PKGBUILD_MAKEDEPENDS \<noteq> 0")
  case True
  with assms have m': "m' = strtrim m lineptr" and b: "bptr' = strchr m' lineptr (CHR 0x0A)"
    by (auto simp: pkgbuild_get_deps_turn_def Let_def)
  have "lineptr \<le> q \<and> q \<le> length m" if "bptr' = Some q" for q
    using strchr_bounds[of m' lineptr "CHR 0x0A" q] that b m' by simp
  then show ?thesis using m' by simp
next
  case False
  with assms obtain arrayend m2 deparray where
    ab: "array_bounds (strtrim m lineptr) lineptr = Inr (arrayend, m2, deparray)"
    and pa: "parse_bash_array deplist m2 deparray True = (deplist', m')"
    and b: "bptr' = Some (arrayend + 1)"
    by (auto simp: pkgbuild_get_deps_turn_def Let_def split: sum.splits prod.splits)
  from array_bounds_facts[OF ab] parse_bash_array_length[OF pa] b show ?thesis by simp
qed

text \<open>
  \<open>pkgbuild_get_deps(pkgbuild)\<close>: the loop of lines 69-84 on \<open>bptr\<close> and \<open>deplist\<close>. The
  result is the list and the buffer as the parser leaves it. \<open>bptr\<close> moves forward inside
  the buffer at every turn, so the loop ends.
\<close>

function pkgbuild_get_deps_loop ::
  "mem \<Rightarrow> nat option \<Rightarrow> string list \<Rightarrow> fault + (string list \<times> mem)" where
  "pkgbuild_get_deps_loop m None deplist = Inr (deplist, m)"
| "pkgbuild_get_deps_loop m (Some bptr) deplist =
     (case strchr m bptr (CHR 0x0A) of
        None \<Rightarrow> Inr (deplist, m)
      | Some nl \<Rightarrow>
          (case pkgbuild_get_deps_turn m (nl + 1) deplist of
             Inl f \<Rightarrow> Inl f
           | Inr (m', bptr', deplist') \<Rightarrow> pkgbuild_get_deps_loop m' bptr' deplist'))"
  by pat_completeness auto
termination
proof (relation "measure (\<lambda>(m, bptr, deplist).
          case bptr of None \<Rightarrow> 0 | Some b \<Rightarrow> 1 + (length m - b))", goal_cases)
  case 1
  show ?case by simp
next
  case (2 m bptr deplist nl r m' y bptr' deplist')
  from strchr_bounds[OF 2(1)] have b: "bptr \<le> nl" "nl < length m" by simp_all
  have "pkgbuild_get_deps_turn m (nl + 1) deplist = Inr (m', bptr', deplist')" using 2 by simp
  from pkgbuild_get_deps_turn_facts[OF this] b show ?case by (cases bptr') auto
qed

definition pkgbuild_get_deps :: "mem \<Rightarrow> fault + (string list \<times> mem)" where
  "pkgbuild_get_deps pkgbuild = pkgbuild_get_deps_loop pkgbuild (Some 0) []"

text \<open>
  Modelled from the spec: \<open>struct aur_pkg_t\<close> is declared in aur.h. \<open>populate_pkg_deps\<close>
  uses its three dependency lists; the spec gives the record a name besides.
\<close>

record aur_pkg_t =
  name :: string
  depends :: "string list"
  makedepends :: "string list"
  optdepends :: "string list"

text \<open>The \<open>alpm_list_t **deplist\<close> of \<open>populate_pkg_deps\<close> points at one of the three lists.\<close>

datatype deplist_ref = Ref_depends | Ref_makedepends | Ref_optdepends

fun deref :: "aur_pkg_t \<Rightarrow> deplist_ref \<Rightarrow> string list" where
  "deref pkg Ref_depends = depends pkg"
| "deref pkg Ref_makedepends = makedepends pkg"
| "deref pkg Ref_optdepends = optdepends pkg"

fun assign :: "aur_pkg_t \<Rightarrow> deplist_ref \<Rightarrow> string list \<Rightarrow> aur_pkg_t" where
  "assign pkg Ref_depends l = pkg\<lparr>depends := l\<rparr>"
| "assign pkg Ref_makedepends l = pkg\<lparr>makedepends := l\<rparr>"
| "assign pkg Ref_optdepends l = pkg\<lparr>optdepends := l\<rparr>"

definition select_deplist :: "mem \<Rightarrow> nat \<Rightarrow> deplist_ref option" where
  \<comment> \<open>the \<open>if / else if\<close> chain of lines 99-108; \<open>None\<close> is the final \<open>else\<close>\<close>
  "select_deplist m lineptr =
     (if line_starts_with m lineptr PKGBUILD_DEPENDS = 0 then Some Ref_depends
      else if line_starts_with m lineptr PKGBUILD_MAKEDEPENDS = 0 then Some Ref_makedepends
      else if line_starts_with m lineptr PKGBUILD_OPTDEPENDS = 0 then Some Ref_optdepends
      else None)"

text \<open>
  One turn of the loop of \<open>populate_pkg_deps\<close>, lines 96-114, from \<open>lineptr\<close> after the
  \<open>++\<close>: the buffer, \<open>bptr\<close> and \<open>pkg\<close> at the end of the turn.
\<close>

definition populate_pkg_deps_turn ::
  "mem \<Rightarrow> nat \<Rightarrow> aur_pkg_t \<Rightarrow> fault + (mem \<times> nat option \<times> aur_pkg_t)" where
  "populate_pkg_deps_turn m lineptr pkg =
     (let m1 = strtrim m lineptr
      in (case select_deplist m1 lineptr of
            None \<Rightarrow> Inr (m1, strchr m1 lineptr (CHR 0x0A), pkg)
          | Some deplist \<Rightarrow>
              (case array_bounds m1 lineptr of
                 Inl f \<Rightarrow> Inl f
               | Inr (arrayend, m2, deparray) \<Rightarrow>
                   (case parse_bash_array (deref pkg deplist) m2 deparray False of
                      (l, m3) \<Rightarrow> Inr (m3, Some (arrayend + 1), assign pkg deplist l)))))"

lemma populate_pkg_deps_turn_facts:
  assumes "populate_pkg_deps_turn m lineptr pkg = Inr (m', bptr', pkg')"
  shows "length m' = length m \<and> (\<forall>b. bptr' = Some b \<longrightarrow> lineptr \<le> b \<and> b \<le> length m)"
proof (cases "select_deplist (strtrim m lineptr) lineptr")
  case None
  with assms have m': "m' = strtrim m lineptr" and b: "bptr' = strchr m' lineptr (CHR 0x0A)"
    by (auto simp: populate_pkg_deps_turn_def Let_def)
  have "lineptr \<le> q \<and> q \<le> length m" if "bptr' = Some q" for q
    using strchr_bounds[of m' lineptr "CHR 0x0A" q] that b m' by simp
  then show ?thesis using m' by simp
next
  case (Some deplist)
  with assms obtain arrayend m2 deparray l where
    ab: "array_bounds (strtrim m lineptr) lineptr = Inr (arrayend, m2, deparray)"
    and pa: "parse_bash_array (deref pkg deplist) m2 deparray False = (l, m')"
    and b: "bptr' = Some (arrayend + 1)"
    by (auto simp: populate_pkg_deps_turn_def Let_def split: sum.splits prod.splits)
  from array_bounds_facts[OF ab] parse_bash_array_length[OF pa] b show ?thesis by simp
qed

function populate_pkg_deps_loop ::
  "mem \<Rightarrow> nat option \<Rightarrow> aur_pkg_t \<Rightarrow> fault + (aur_pkg_t \<times> mem)" where
  "populate_pkg_deps_loop m None pkg = Inr (pkg, m)"
| "populate_pkg_deps_loop m (Some bptr) pkg =
     (case strchr m bptr (CHR 0x0A) of
        None \<Rightarrow> Inr (pkg, m)
      | Some nl \<Rightarrow>
          (case populate_pkg_deps_turn m (nl + 1) pkg of
             Inl f \<Rightarrow> Inl f
           | Inr (m', bptr', pkg') \<Rightarrow> populate_pkg_deps_loop m' bptr' pkg'))"
  by pat_completeness auto
termination
proof (relation "measure (\<lambda>(m, bptr, pkg).
          case bptr of None \<Rightarrow> 0 | Some b \<Rightarrow> 1 + (length m - b))", goal_cases)
  case 1
  show ?case by simp
next
  case (2 m bptr pkg nl r m' y bptr' pkg')
  from strchr_bounds[OF 2(1)] have b: "bptr \<le> nl" "nl < length m" by simp_all
  have "populate_pkg_deps_turn m (nl + 1) pkg = Inr (m', bptr', pkg')" using 2 by simp
  from populate_pkg_deps_turn_facts[OF this] b show ?case by (cases bptr') auto
qed

definition populate_pkg_deps :: "aur_pkg_t \<Rightarrow> mem \<Rightarrow> fault + (aur_pkg_t \<times> mem)" where
  "populate_pkg_deps pkg pkgbuild = populate_pkg_deps_loop pkgbuild (Some 0) pkg"

section \<open>What the parser computes, on strings\<close>

text \<open>
  The description of the extractor on strings. The text of the array is cut into
  tokens at a set of delimiters; each token loses one leading quote, then in stripped
  mode it ends before the first of \<open>= < > " '\<close>, in raw mode it loses one trailing quote;
  a token is added to the set unless it is there already.
\<close>

function tokens_by :: "string \<Rightarrow> string \<Rightarrow> string list" where
  "tokens_by delims s =
     (let s1 = dropWhile (\<lambda>c. c \<in> set delims) s
      in if s1 = [] then []
         else takeWhile (\<lambda>c. c \<notin> set delims) s1
                # tokens_by delims (dropWhile (\<lambda>c. c \<notin> set delims) s1))"
  by pat_completeness auto
termination
proof (relation "measure (\<lambda>(delims, s). length s)", goal_cases)
  case 1
  show ?case by simp
next
  case (2 delims s s1)
  from 2(2) obtain a as where s1: "s1 = a # as" unfolding neq_Nil_conv by blast
  have "dropWhile (\<lambda>c. c \<in> set delims) s \<noteq> []" using 2(2) unfolding 2(1) .
  then have "\<not> hd (dropWhile (\<lambda>c. c \<in> set delims) s) \<in> set delims"
    by (rule hd_dropWhile)
  then have "hd s1 \<notin> set delims" unfolding 2(1) .
  then have a: "a \<notin> set delims" unfolding s1 by simp
  have "length (dropWhile (\<lambda>c. c \<notin> set delims) as) \<le> length as"
    by (rule length_dropWhile_le)
  moreover have "length s1 \<le> length s" unfolding 2(1) by (rule length_dropWhile_le)
  ultimately have "length (dropWhile (\<lambda>c. c \<notin> set delims) s1) < length s"
    using a s1 by simp
  then show ?case by simp
qed

definition drop_quote :: "string \<Rightarrow> string" where
  "drop_quote t = (case t of [] \<Rightarrow> [] | c # cs \<Rightarrow> if is_quote c then cs else t)"

definition strip_name :: "string \<Rightarrow> string" where
  "strip_name t = takeWhile (\<lambda>c. c \<notin> set strip_chars) (drop_quote t)"

definition raw_name :: "string \<Rightarrow> string" where
  "raw_name t =
     (let u = drop_quote t in if u \<noteq> [] \<and> is_quote (last u) then butlast u else u)"

definition add_unique :: "string list \<Rightarrow> string \<Rightarrow> string list" where
  "add_unique deplist t = (if t \<in> set deplist then deplist else deplist @ [t])"

definition extract_by :: "string \<Rightarrow> bool \<Rightarrow> string list \<Rightarrow> string \<Rightarrow> string list" where
  "extract_by delims stripdeps deplist s =
     foldl add_unique deplist
       (map (if stripdeps then strip_name else raw_name) (tokens_by delims s))"

text \<open>
  The spec's extractor, in the spec's words: everything between the bounds of the array
  is tokenized on whitespace.
\<close>

definition extract_array :: "bool \<Rightarrow> string list \<Rightarrow> string \<Rightarrow> string list" where
  "extract_array stripdeps deplist s = extract_by whitespace stripdeps deplist s"

text \<open>
  The text that lines 79-82 (and 110-113) take for the array, in the string \<open>s\<close> at
  \<open>lineptr\<close>: what stands before the first \<open>)\<close> of \<open>s\<close>, and of that what follows its first
  \<open>(\<close>.
\<close>

definition array_text :: "string \<Rightarrow> string" where
  "array_text s =
     tl (dropWhile (\<lambda>c. c \<noteq> CHR ''('') (takeWhile (\<lambda>c. c \<noteq> CHR '')'') s))"

text \<open>
  The two extractors on strings. \<open>strtrim\<close> leaves at its pointer the string without its
  leading and trailing whitespace; \<open>line_starts_with\<close> gives \<open>0\<close> when the string begins
  with the keyword; the \<open>if / else if\<close> chain of lines 99-108 takes the first keyword that
  the string begins with.
\<close>

definition trim :: "string \<Rightarrow> string" where
  "trim s = rev (dropWhile isspace (rev (dropWhile isspace s)))"

definition begins :: "string \<Rightarrow> string \<Rightarrow> bool" where
  "begins s keyword \<longleftrightarrow> take (length keyword) s = keyword"

definition keyword_of :: "string \<Rightarrow> deplist_ref option" where
  "keyword_of s =
     (if begins s PKGBUILD_DEPENDS then Some Ref_depends
      else if begins s PKGBUILD_MAKEDEPENDS then Some Ref_makedepends
      else if begins s PKGBUILD_OPTDEPENDS then Some Ref_optdepends
      else None)"

lemma length_trim_le: "length (trim s) \<le> length s"
proof -
  have "length (trim s) \<le> length (dropWhile isspace s)"
    unfolding trim_def using length_dropWhile_le[of isspace "rev (dropWhile isspace s)"] by simp
  also have "\<dots> \<le> length s" by (rule length_dropWhile_le)
  finally show ?thesis .
qed

lemma length_after_char: "c \<in> set s \<Longrightarrow> length (tl (dropWhile (\<lambda>x. x \<noteq> c) s)) < length s"
proof -
  assume "c \<in> set s"
  then have "dropWhile (\<lambda>x. x \<noteq> c) s \<noteq> []" by (simp add: dropWhile_eq_Nil_conv)
  then have "length (tl (dropWhile (\<lambda>x. x \<noteq> c) s)) < length (dropWhile (\<lambda>x. x \<noteq> c) s)" by (cases "dropWhile (\<lambda>x. x \<noteq> c) s") auto
  also have "\<dots> \<le> length s" by (rule length_dropWhile_le)
  finally show ?thesis .
qed


text \<open>
  \<open>populate_pkg_deps\<close> on the text at \<open>bptr\<close> and the package so far, lines 92-115: the
  same loop, in raw mode, on the list of the package that the keyword names.
\<close>

function populate_of_text :: "string \<Rightarrow> aur_pkg_t \<Rightarrow> fault + aur_pkg_t" where
  "populate_of_text recipe pkg =
     (if CHR 0x0A \<notin> set recipe then Inr pkg
      else (let rest = trim (tl (dropWhile (\<lambda>c. c \<noteq> CHR 0x0A) recipe))
            in (case keyword_of rest of
                  None \<Rightarrow> populate_of_text (dropWhile (\<lambda>c. c \<noteq> CHR 0x0A) rest) pkg
                | Some deplist \<Rightarrow>
                    if CHR '')'' \<notin> set rest then Inl NullWrite
                    else if CHR ''('' \<notin> set (takeWhile (\<lambda>c. c \<noteq> CHR '')'') rest) then Inl WildPointer
                    else populate_of_text (tl (dropWhile (\<lambda>c. c \<noteq> CHR '')'') rest))
                           (assign pkg deplist
                              (extract_by token_delims False (deref pkg deplist) (array_text rest))))))"
  by pat_completeness auto
termination
proof (relation "measure (\<lambda>(recipe, pkg). length recipe)", goal_cases)
  case 1
  show ?case by simp
next
  case (2 recipe pkg rest)
  have "length (dropWhile (\<lambda>c. c \<noteq> CHR 0x0A) rest) \<le> length rest" by (rule length_dropWhile_le)
  also have "\<dots> \<le> length (tl (dropWhile (\<lambda>c. c \<noteq> CHR 0x0A) recipe))" unfolding 2(2) by (rule length_trim_le)
  also have "\<dots> < length recipe" using 2(1) by (intro length_after_char) simp
  finally show ?case by simp
next
  case (3 recipe pkg rest deplist)
  have "length (tl (dropWhile (\<lambda>c. c \<noteq> CHR '')'') rest)) \<le> length rest"
    using length_dropWhile_le[of "\<lambda>c. c \<noteq> CHR '')''" rest] by simp
  also have "\<dots> \<le> length (tl (dropWhile (\<lambda>c. c \<noteq> CHR 0x0A) recipe))" unfolding 3(2) by (rule length_trim_le)
  also have "\<dots> < length recipe" using 3(1) by (intro length_after_char) simp
  finally show ?case by simp
qed


text \<open>For the statements below: the text at a \<open>bptr\<close> that may be \<open>NULL\<close>.\<close>

definition text_at :: "mem \<Rightarrow> nat option \<Rightarrow> string" where
  "text_at m bptr = (case bptr of None \<Rightarrow> [] | Some b \<Rightarrow> cstr m b)"

text \<open>
  For the statements below: the relation between a token that \<open>strtok\<close> has returned and
  the place where it resumes (at the terminator of the token when the string ended
  there, else one past it); the first line of a buffer, up to the first newline or NUL;
  and a package with empty lists.
\<close>

definition resumes :: "mem \<Rightarrow> nat \<Rightarrow> nat \<Rightarrow> bool" where
  "resumes m token olds \<longleftrightarrow>
     cstr m token \<noteq> [] \<and>
     ((olds = token + length (cstr m token) \<and> cstr m olds = []) \<or>
      olds = token + length (cstr m token) + 1)"

definition first_line :: "mem \<Rightarrow> string" where
  "first_line m = takeWhile (\<lambda>c. c \<noteq> CHR 0x0A \<and> c \<noteq> NUL) m"

definition empty_pkg :: aur_pkg_t where
  "empty_pkg = \<lparr>name = ''foo'', depends = [], makedepends = [], optdepends = []\<rparr>"

text \<open>
  The recipe texts of the spec's examples, as the spec writes them:
  \<^verbatim>\<open>depends=('a' 'b>=1.0' 'a')\<close> and \<^verbatim>\<open>optdepends=('a: description text')\<close>; and
  a declaration whose two elements are separated by a TAB.
\<close>

definition recipe_depends :: string where
  "recipe_depends =
     ''depends=('' @ [CHR 0x27] @ ''a'' @ [CHR 0x27] @ '' '' @
     [CHR 0x27] @ ''b>=1.0'' @ [CHR 0x27] @ '' '' @ [CHR 0x27] @ ''a'' @ [CHR 0x27] @ '')''"

definition recipe_optdepends :: string where
  "recipe_optdepends =
     ''optdepends=('' @ [CHR 0x27] @ ''a: description text'' @ [CHR 0x27] @ '')''"



section \<open>pacman.c: looking a name up in the sync databases\<close>

text \<open>
  libalpm's databases are outside the repository. A database is its name and its package
  cache, a package is its name; \<open>alpm_db_get_pkg\<close> finds a package by exact name.
\<close>

record pmdb_t =
  treename :: string
  pkgcache :: "string list"

definition alpm_db_get_pkg :: "pmdb_t \<Rightarrow> string \<Rightarrow> string option" where
  "alpm_db_get_pkg db nm = find (\<lambda>pkg. pkg = nm) (pkgcache db)"

text \<open>
  \<open>alpm_sync_search(target)\<close>, lines 260-281: the first database, in the order of
  \<open>alpm_option_get_syncdbs()\<close>, whose cache holds a package named as the target.
\<close>

fun alpm_sync_search :: "pmdb_t list \<Rightarrow> string \<Rightarrow> pmdb_t option" where
  "alpm_sync_search [] target = None"
| "alpm_sync_search (db # syncs) target =
     (if list_ex (\<lambda>pkg. pkg = target) (pkgcache db) then Some db
      else alpm_sync_search syncs target)"

text \<open>
  What the resolution pass does to the outside world, in order. Console output is
  recorded where it does not depend on the verbosity: the line of \<open>is_in_pacman\<close> and the
  error line of \<open>get_pkg_dependencies\<close> (colour changes their escape codes only). The
  \<open>::DEBUG\<close> lines and the \<open>Fetching\<close> banner are left out.
\<close>

datatype event =
    Local_lookup string            \<comment> \<open>\<open>alpm_db_get_pkg(db_local, depend)\<close>\<close>
  | Sync_search string             \<comment> \<open>\<open>alpm_sync_search\<close> from \<open>is_in_pacman(depend)\<close>\<close>
  | Print_available string string  \<comment> \<open>\<open>"%s is available in %s\n"\<close>\<close>
  | Aur_query string               \<comment> \<open>\<open>aur_rpc_query(AUR_QUERY_TYPE_INFO, depend)\<close>\<close>
  | Aur_get_tarball aur_pkg_t bool \<comment> \<open>\<open>aur_get_tarball(results->data)\<close> and whether it succeeded\<close>
  | Print_could_not_open           \<comment> \<open>\<open>"Could not open PKGBUILD for dependency parsing."\<close>\<close>

definition is_in_pacman :: "pmdb_t list \<Rightarrow> string \<Rightarrow> bool \<times> event list" where
  "is_in_pacman syncs target =
     (case alpm_sync_search syncs target of
        Some found_in \<Rightarrow> (True, [Sync_search target, Print_available target (treename found_in)])
      | None \<Rightarrow> (False, [Sync_search target]))"

section \<open>depends.c: the resolution driver\<close>

text \<open>
  The collaborators of \<open>get_pkg_dependencies\<close> are outside depends.c and pacman.c and
  are parameters: the configuration, the working directory (\<open>getcwd\<close>, \<open>realpath\<close>; \<open>None\<close> is
  \<open>NULL\<close>), the file system behind \<open>get_file_as_buffer\<close> (the text of a file, or \<open>None\<close>
  for \<open>NULL\<close>), the local and sync databases, the AUR query and the tarball download with
  its outcome.
\<close>

record world =
  download_dir :: "string option"
  getcwd :: "string option"
  realpath :: "string \<Rightarrow> string option"
  get_file_as_buffer :: "string \<Rightarrow> string option"
  db_local :: pmdb_t
  syncdbs :: "pmdb_t list"
  aur_rpc_query :: "string \<Rightarrow> aur_pkg_t list"
  aur_get_tarball :: "aur_pkg_t \<Rightarrow> bool"

definition PATH_MAX :: nat where
  "PATH_MAX = 4096"

text \<open>
  The branch the body of the loop of lines 155-184 takes for one dependency, named as the
  spec names the outcomes of classification.
\<close>

datatype classified = Installed | AvailableInRepository | AvailableInAUR | Unresolved

text \<open>
  The body of the \<open>for\<close> loop, lines 156-183, for one \<open>depend\<close>: the branch taken, the
  new value of \<open>ret\<close>, and the events. \<open>ret++\<close> comes before \<open>aur_get_tarball\<close>, whose
  result is not looked at.
\<close>

definition resolve_depend :: "world \<Rightarrow> string \<Rightarrow> int \<Rightarrow> classified \<times> int \<times> event list" where
  "resolve_depend w depend ret =
     (if alpm_db_get_pkg (db_local w) depend \<noteq> None
      then (Installed, ret, [Local_lookup depend])
      else (case is_in_pacman (syncdbs w) depend of
              (True, ev) \<Rightarrow> (AvailableInRepository, ret, Local_lookup depend # ev)
            | (False, ev) \<Rightarrow>
                (case aur_rpc_query w depend of
                   [] \<Rightarrow> (Unresolved, ret, Local_lookup depend # ev @ [Aur_query depend])
                 | r # results \<Rightarrow>
                     (AvailableInAUR, ret + 1,
                      Local_lookup depend # ev @
                        [Aur_query depend, Aur_get_tarball r (aur_get_tarball w r)]))))"

fun resolve_all :: "world \<Rightarrow> string list \<Rightarrow> int \<Rightarrow> event list \<Rightarrow> int \<times> event list" where
  "resolve_all w [] ret evs = (ret, evs)"
| "resolve_all w (depend # deplist) ret evs =
     (case resolve_depend w depend ret of
        (c, ret', ev) \<Rightarrow> resolve_all w deplist ret' (evs @ ev))"

text \<open>
  \<open>get_pkg_dependencies(pkg)\<close>: the value returned and the events, or a fault.
  \<open>strlen(dir)\<close> with \<open>dir == NULL\<close> is a read through \<open>NULL\<close>; \<open>snprintf\<close> is given the
  bound \<open>strlen(dir) + strlen(pkg) + 11\<close>, which is the length of the whole path with its
  terminator, for a buffer of \<open>PATH_MAX + 1\<close> bytes.
\<close>

definition get_pkg_dependencies :: "world \<Rightarrow> string \<Rightarrow> fault + (int \<times> event list)" where
  "get_pkg_dependencies w pkg =
     (case (case download_dir w of None \<Rightarrow> getcwd w | Some d \<Rightarrow> realpath w d) of
        None \<Rightarrow> Inl NullDeref
      | Some dir \<Rightarrow>
          if length dir + length pkg + 11 > PATH_MAX + 1 then Inl PathOverflow
          else (let pkgbuild_path = dir @ ''/'' @ pkg @ ''/PKGBUILD''
                in (case get_file_as_buffer w pkgbuild_path of
                      None \<Rightarrow> Inr (1, [Print_could_not_open])
                    | Some text \<Rightarrow>
                        (case pkgbuild_get_deps (text @ [NUL]) of
                           Inl f \<Rightarrow> Inl f
                         | Inr (deplist, buffer) \<Rightarrow> Inr (resolve_all w deplist 0 [])))))"

text \<open>
  For the statements below: whether an event is a tarball download, and whether it is
  one that succeeded; and the dependencies the pass sends to the AUR and finds there.
\<close>

fun is_tarball_call :: "event \<Rightarrow> bool" where
  "is_tarball_call (Aur_get_tarball p ok) = True"
| "is_tarball_call e = False"

fun is_tarball_fetched :: "event \<Rightarrow> bool" where
  "is_tarball_fetched (Aur_get_tarball p ok) = ok"
| "is_tarball_fetched e = False"

fun is_lookup :: "event \<Rightarrow> bool" where
  "is_lookup (Local_lookup d) = True"
| "is_lookup (Sync_search d) = True"
| "is_lookup (Aur_query d) = True"
| "is_lookup e = False"

definition found_in_aur :: "world \<Rightarrow> string \<Rightarrow> bool" where
  "found_in_aur w depend \<longleftrightarrow>
     alpm_db_get_pkg (db_local w) depend = None \<and>
     alpm_sync_search (syncdbs w) depend = None \<and>
     aur_rpc_query w depend \<noteq> []"

text \<open>
  A concrete world: in \<open>/tmp/foo\<close> a recipe that depends on \<open>x\<close>, \<open>y\<close>, \<open>z\<close> and \<open>q\<close>;
  \<open>x\<close> is installed and also in the repository \<open>core\<close>, \<open>y\<close> is in \<open>core\<close> only, \<open>z\<close> is
  known to the AUR only, \<open>q\<close> is known nowhere; every tarball download fails.
\<close>

definition pkg_z :: aur_pkg_t where
  "pkg_z = \<lparr>name = ''z'', depends = [], makedepends = [], optdepends = []\<rparr>"

definition example_world :: world where
  "example_world =
     \<lparr>download_dir = None,
      getcwd = Some ''/tmp'',
      realpath = (\<lambda>d. Some d),
      get_file_as_buffer = (\<lambda>p. if p = ''/tmp/foo/PKGBUILD''
         then Some ''pkgname=foo\<newline>depends=(x y z q)\<newline>'' else None),
      db_local = \<lparr>treename = ''local'', pkgcache = [''x'']\<rparr>,
      syncdbs = [\<lparr>treename = ''core'', pkgcache = [''x'', ''y'']\<rparr>],
      aur_rpc_query = (\<lambda>n. if n = ''z'' then [pkg_z] else []),
      aur_get_tarball = (\<lambda>p. False)\<rparr>"

section \<open>Properties of the merge\<close>

lemma cmp_sym0: "total_order_cmp fn \<Longrightarrow> fn a b = 0 \<Longrightarrow> fn b a = 0"
  unfolding total_order_cmp_def by (metis less_int_code(1) linorder_neqE_linordered_idom)

lemma cmp_flip_le: "total_order_cmp fn \<Longrightarrow> \<not> fn a b < 0 \<Longrightarrow> fn b a \<le> 0"
  unfolding total_order_cmp_def by (metis not_le)

lemma cmp_le_trans: "total_order_cmp fn \<Longrightarrow> fn a b \<le> 0 \<Longrightarrow> fn b c \<le> 0 \<Longrightarrow> fn a c \<le> 0"
  unfolding total_order_cmp_def by blast

lemma cmp_lt_le_trans:
  assumes t: "total_order_cmp fn" and ab: "fn a b < 0" and bc: "fn b c \<le> 0"
  shows "fn a c < 0"
proof (rule ccontr)
  assume "\<not> fn a c < 0"
  then have "fn c a \<le> 0" using t by (rule cmp_flip_le[rotated])
  with bc have "fn b a \<le> 0" using t cmp_le_trans by blast
  moreover from ab t have "fn b a > 0" unfolding total_order_cmp_def by blast
  ultimately show False by simp
qed

lemma cmp_le_lt_trans:
  assumes t: "total_order_cmp fn" and ab: "fn a b \<le> 0" and bc: "fn b c < 0"
  shows "fn a c < 0"
proof (rule ccontr)
  assume "\<not> fn a c < 0"
  then have "fn c a \<le> 0" using t by (rule cmp_flip_le[rotated])
  with ab have "fn c b \<le> 0" using t cmp_le_trans by blast
  moreover from bc t have "fn c b > 0" unfolding total_order_cmp_def by blast
  ultimately show False by simp
qed

lemma cmp_gt_lt: "total_order_cmp fn \<Longrightarrow> fn a b > 0 \<Longrightarrow> fn b a < 0"
  unfolding total_order_cmp_def by blast

lemma strict_sorted_filter_eq:
  assumes t: "total_order_cmp fn"
  shows "sorted_wrt (\<lambda>a b. fn a b < 0) xs \<Longrightarrow> length (filter (\<lambda>y. fn x y = 0) xs) \<le> 1"
proof (induction xs)
  case Nil then show ?case by simp
next
  case (Cons y ys)
  show ?case
  proof (cases "fn x y = 0")
    case True
    have "filter (\<lambda>y. fn x y = 0) ys = []"
    proof -
      { fix z assume z: "z \<in> set ys"
        with Cons.prems have "fn y z < 0" by simp
        with True have "fn x z < 0" using cmp_le_lt_trans[OF t, of x y z] by simp
        then have "fn x z \<noteq> 0" by simp }
      then show ?thesis by (simp add: filter_empty_conv)
    qed
    with True show ?thesis by simp
  next
    case False
    with Cons show ?thesis by simp
  qed
qed


lemma fnf_calls_simps [simp]: "fnf_calls [] = []" "fnf_calls (d # xs) = fnf_call d @ fnf_calls xs"
  by (simp_all add: fnf_calls_def)

lemma cmp_refl: "total_order_cmp fn \<Longrightarrow> fn a a = 0"
proof -
  assume "total_order_cmp fn"
  then have "(fn a a < 0) = (fn a a > 0)" unfolding total_order_cmp_def by blast
  then show ?thesis by linarith
qed

lemma sorted_hd_le:
  assumes t: "total_order_cmp fn" and s: "sorted_wrt (\<lambda>a b. fn a b < 0) (y # ys)" and x: "x \<in> set (y # ys)"
  shows "fn y x \<le> 0"
proof (cases "x = y")
  case True
  then show ?thesis using cmp_refl[OF t, of y] by simp
next
  case False
  with x have "x \<in> set ys" by simp
  with s have "fn y x < 0" by simp
  then show ?thesis by simp
qed

lemma not_dup_lt:
  assumes t: "total_order_cmp fn" and "fn l r < 0" "sorted_wrt (\<lambda>a b. fn a b < 0) (r # rs)"
  shows "\<not> dup_of fn (r # rs) l"
proof -
  { fix x assume "x \<in> set (r # rs)"
    then have "fn r x \<le> 0" using sorted_hd_le[OF t assms(3)] by blast
    then have "fn l x < 0" using cmp_lt_le_trans[OF t assms(2)] by blast }
  then show ?thesis unfolding dup_of_def by fastforce
qed

lemma dup_of_skip:
  assumes t: "total_order_cmp fn" and "fn l r > 0" "sorted_wrt (\<lambda>a b. fn a b < 0) (l # ls)"
    "x \<in> set (l # ls)"
  shows "dup_of fn (r # rs) x = dup_of fn rs x"
proof -
  have "fn r l < 0" using t assms(2) by (rule cmp_gt_lt)
  moreover have "fn l x \<le> 0" using sorted_hd_le[OF t assms(3,4)] .
  ultimately have "fn r x < 0" using cmp_lt_le_trans[OF t] by blast
  then have "fn x r > 0" using t unfolding total_order_cmp_def by blast
  then have "fn x r \<noteq> 0" by simp
  then show ?thesis unfolding dup_of_def by simp
qed

lemma mmerge_loop_inv:
  "total_order_cmp fn \<Longrightarrow> sorted_wrt (\<lambda>a b. fn a b < 0) left \<Longrightarrow> sorted_wrt (\<lambda>a b. fn a b < 0) right \<Longrightarrow>
    sorted_wrt (\<lambda>a b. fn a b < 0) out \<Longrightarrow>
    (\<forall>a\<in>set out. \<forall>x\<in>set left \<union> set right. fn a x < 0) \<Longrightarrow>
    \<exists>left2 right2 out2. mmerge_loop fn left right out tr =
        Inr (left2, right2, out2, tr @ fnf_calls (filter (dup_of fn right) left)) \<and>
       (left2 = [] \<or> right2 = []) \<and>
       sorted_wrt (\<lambda>a b. fn a b < 0) (out2 @ left2 @ right2) \<and>
       mset (out2 @ left2 @ right2) = mset out + mset (filter (\<lambda>l. \<not> dup_of fn right l) left) + mset right"
proof (induction fn left right out tr rule: mmerge_loop.induct)
  case (1 fn right out tr)
  then show ?case by (auto simp: sorted_wrt_append dup_of_def)
next
  case (2 fn l ls out tr)
  then show ?case by (auto simp: sorted_wrt_append dup_of_def)
next
  case (3 fn l ls r rs out tr)
  note t = \<open>total_order_cmp fn\<close>
  note sl = \<open>sorted_wrt (\<lambda>a b. fn a b < 0) (l # ls)\<close>
  note sr = \<open>sorted_wrt (\<lambda>a b. fn a b < 0) (r # rs)\<close>
  note so = \<open>sorted_wrt (\<lambda>a b. fn a b < 0) out\<close>
  note inv = \<open>\<forall>a\<in>set out. \<forall>x\<in>set (l # ls) \<union> set (r # rs). fn a x < 0\<close>
  have sls: "sorted_wrt (\<lambda>a b. fn a b < 0) ls" and srs: "sorted_wrt (\<lambda>a b. fn a b < 0) rs"
    using sl sr by simp_all
  consider (lt) "fn l r < 0" | (gt) "fn l r > 0" | (eq) "fn l r = 0" by linarith
  then show ?case
  proof cases
    case lt
    have nd: "\<not> dup_of fn (r # rs) l" using not_dup_lt[OF t lt sr] .
    have 1: "sorted_wrt (\<lambda>a b. fn a b < 0) (out @ [l])" using so inv by (auto simp: sorted_wrt_append)
    have lr: "\<forall>x\<in>set (r # rs). fn l x < 0"
    proof
      fix x assume "x \<in> set (r # rs)"
      then have "fn r x \<le> 0" using sorted_hd_le[OF t sr] by blast
      then show "fn l x < 0" using cmp_lt_le_trans[OF t lt] by blast
    qed
    have 2: "\<forall>a\<in>set (out @ [l]). \<forall>x\<in>set ls \<union> set (r # rs). fn a x < 0"
      using inv sl lr by auto
    from "3.IH"(1)[OF refl lt t sls sr 1 2] obtain left2 right2 out2 where
      IH: "mmerge_loop fn ls (r # rs) (out @ [l]) tr =
             Inr (left2, right2, out2, tr @ fnf_calls (filter (dup_of fn (r # rs)) ls))"
          "left2 = [] \<or> right2 = []" "sorted_wrt (\<lambda>a b. fn a b < 0) (out2 @ left2 @ right2)"
          "mset (out2 @ left2 @ right2) = mset (out @ [l]) + mset (filter (\<lambda>l. \<not> dup_of fn (r # rs) l) ls) + mset (r # rs)"
      by blast
    show ?thesis using IH lt nd by simp
  next
    case gt
    have rl: "fn r l < 0" using t gt by (rule cmp_gt_lt)
    have dup: "\<And>x. x \<in> set (l # ls) \<Longrightarrow> dup_of fn (r # rs) x = dup_of fn rs x"
      using dup_of_skip[OF t gt sl] by blast
    have f1: "filter (dup_of fn (r # rs)) (l # ls) = filter (dup_of fn rs) (l # ls)"
      using dup by (intro filter_cong) auto
    have f2: "filter (\<lambda>l. \<not> dup_of fn (r # rs) l) (l # ls) = filter (\<lambda>l. \<not> dup_of fn rs l) (l # ls)"
      using dup by (intro filter_cong) auto
    have 1: "sorted_wrt (\<lambda>a b. fn a b < 0) (out @ [r])" using so inv by (auto simp: sorted_wrt_append)
    have rls: "\<forall>x\<in>set (l # ls). fn r x < 0"
    proof
      fix x assume "x \<in> set (l # ls)"
      then have "fn l x \<le> 0" using sorted_hd_le[OF t sl] by blast
      then show "fn r x < 0" using cmp_lt_le_trans[OF t rl] by blast
    qed
    have 2: "\<forall>a\<in>set (out @ [r]). \<forall>x\<in>set (l # ls) \<union> set rs. fn a x < 0"
      using inv sr rls by auto
    have ng: "\<not> fn l r < 0" using gt by simp
    from "3.IH"(2)[OF refl ng gt t sl srs 1 2] obtain left2 right2 out2 where
      IH: "mmerge_loop fn (l # ls) rs (out @ [r]) tr =
             Inr (left2, right2, out2, tr @ fnf_calls (filter (dup_of fn rs) (l # ls)))"
          "left2 = [] \<or> right2 = []" "sorted_wrt (\<lambda>a b. fn a b < 0) (out2 @ left2 @ right2)"
          "mset (out2 @ left2 @ right2) = mset (out @ [r]) + mset (filter (\<lambda>l. \<not> dup_of fn rs l) (l # ls)) + mset rs"
      by blast
    show ?thesis unfolding f1 f2 using IH gt ng by simp
  next
    case eq
    have d: "dup_of fn (r # rs) l" using eq by (simp add: dup_of_def)
    have 2: "\<forall>a\<in>set out. \<forall>x\<in>set ls \<union> set (r # rs). fn a x < 0" using inv by auto
    have n1: "\<not> fn l r < 0" "\<not> fn l r > 0" using eq by simp_all
    from "3.IH"(3)[OF refl n1 alpm_list_remove_item.simps(2) refl t sls sr so 2] obtain left2 right2 out2 where
      IH: "mmerge_loop fn ls (r # rs) out (tr @ fnf_call l) =
             Inr (left2, right2, out2, (tr @ fnf_call l) @ fnf_calls (filter (dup_of fn (r # rs)) ls))"
          "left2 = [] \<or> right2 = []" "sorted_wrt (\<lambda>a b. fn a b < 0) (out2 @ left2 @ right2)"
          "mset (out2 @ left2 @ right2) = mset out + mset (filter (\<lambda>l. \<not> dup_of fn (r # rs) l) ls) + mset (r # rs)"
      by blast
    show ?thesis using IH eq d by simp
  qed
qed


lemma mmerge_first_inv:
  assumes t: "total_order_cmp fn"
    and sl: "sorted_wrt (\<lambda>a b. fn a b < 0) (l # ls)"
    and sr: "sorted_wrt (\<lambda>a b. fn a b < 0) (r # rs)"
    and ok: "\<not> (ls = [] \<and> fn l r = 0)"
  shows "\<exists>n left1 right1 tr1. mmerge_first fn (l # ls) (r # rs) [] = Inr (n, left1, right1, tr1) \<and>
      sorted_wrt (\<lambda>a b. fn a b < 0) left1 \<and> sorted_wrt (\<lambda>a b. fn a b < 0) right1 \<and>
      (\<forall>x\<in>set left1 \<union> set right1. fn n x < 0) \<and>
      tr1 @ fnf_calls (filter (dup_of fn right1) left1) = fnf_calls (filter (dup_of fn (r # rs)) (l # ls)) \<and>
      {#n#} + mset (filter (\<lambda>l. \<not> dup_of fn right1 l) left1) + mset right1 =
        mset (filter (\<lambda>l. \<not> dup_of fn (r # rs) l) (l # ls)) + mset (r # rs)"
proof -
  have sls: "sorted_wrt (\<lambda>a b. fn a b < 0) ls" and srs: "sorted_wrt (\<lambda>a b. fn a b < 0) rs"
    using sl sr by simp_all
  consider (lt) "fn l r < 0" | (gt) "fn l r > 0" | (eq) "fn l r = 0" by linarith
  then show ?thesis
  proof cases
    case lt
    have nd: "\<not> dup_of fn (r # rs) l" using not_dup_lt[OF t lt sr] .
    have lr: "\<forall>x\<in>set (r # rs). fn l x < 0"
      using cmp_lt_le_trans[OF t lt] sorted_hd_le[OF t sr] by blast
    have "mmerge_first fn (l # ls) (r # rs) [] = Inr (l, ls, r # rs, [])" using lt by simp
    then show ?thesis using sls sr sl lr nd by auto
  next
    case gt
    have rl: "fn r l < 0" using t gt by (rule cmp_gt_lt)
    have dup: "\<And>x. x \<in> set (l # ls) \<Longrightarrow> dup_of fn (r # rs) x = dup_of fn rs x"
      using dup_of_skip[OF t gt sl] by blast
    have f1: "filter (dup_of fn (r # rs)) (l # ls) = filter (dup_of fn rs) (l # ls)"
      using dup by (intro filter_cong) auto
    have f2: "filter (\<lambda>l. \<not> dup_of fn (r # rs) l) (l # ls) = filter (\<lambda>l. \<not> dup_of fn rs l) (l # ls)"
      using dup by (intro filter_cong) auto
    have rls: "\<forall>x\<in>set (l # ls). fn r x < 0"
      using cmp_lt_le_trans[OF t rl] sorted_hd_le[OF t sl] by blast
    have "mmerge_first fn (l # ls) (r # rs) [] = Inr (r, l # ls, rs, [])" using gt by simp
    then show ?thesis unfolding f1 f2 using sl srs sr rls by auto
  next
    case eq
    with ok obtain l2 ls' where ls: "ls = l2 # ls'" by (cases ls) auto
    have d: "dup_of fn (r # rs) l" using eq by (simp add: dup_of_def)
    have "fn l l2 < 0" using sl ls by simp
    moreover have "fn r l \<le> 0" using cmp_sym0[OF t eq] by simp
    ultimately have rl2: "fn r l2 < 0" using cmp_le_lt_trans[OF t] by blast
    then have gt: "fn l2 r > 0" using t unfolding total_order_cmp_def by blast
    have dup: "\<And>x. x \<in> set (l2 # ls') \<Longrightarrow> dup_of fn (r # rs) x = dup_of fn rs x"
      using dup_of_skip[OF t gt] sls ls by blast
    have f1: "filter (dup_of fn (r # rs)) (l2 # ls') = filter (dup_of fn rs) (l2 # ls')"
      using dup by (intro filter_cong) auto
    have f2: "filter (\<lambda>l. \<not> dup_of fn (r # rs) l) (l2 # ls') = filter (\<lambda>l. \<not> dup_of fn rs l) (l2 # ls')"
      using dup by (intro filter_cong) auto
    have rls: "\<forall>x\<in>set (l2 # ls'). fn r x < 0"
      using cmp_lt_le_trans[OF t rl2] sorted_hd_le[OF t] sls ls by blast
    have "mmerge_first fn (l # ls) (r # rs) [] = Inr (r, l2 # ls', rs, fnf_call l)"
      using eq gt ls by simp
    moreover have "filter (dup_of fn (r # rs)) (l # ls) = l # filter (dup_of fn rs) (l2 # ls')"
      using d f1 ls by simp
    moreover have "filter (\<lambda>l. \<not> dup_of fn (r # rs) l) (l # ls) = filter (\<lambda>l. \<not> dup_of fn rs l) (l2 # ls')"
      using d f2 ls by simp
    ultimately show ?thesis using sls ls srs sr rls
      by auto
  qed
qed

text \<open>
  Claim C1, as the code has it. For two inputs that are each strictly sorted under a
  total-order comparison (sorted, and no two elements of one input compare equal), and
  unless \<open>left\<close> is a single element that compares equal to the head of \<open>right\<close>,
  \<open>alpm_list_mmerge_dedupe\<close> returns a strictly sorted list that holds every element of
  \<open>right\<close> and every element of \<open>left\<close> with no equal in \<open>right\<close>, each once; the
  elements of \<open>left\<close> with an equal in \<open>right\<close> are the ones removed, and the disposal
  callback is called once on each of them (on its data, when not \<open>NULL\<close>), in order.
  Hence every element of either input has exactly one element of the output that
  compares equal to it.
\<close>

theorem mmerge_dedupe_strictly_sorted:
  assumes t: "total_order_cmp fn"
    and sl: "sorted_wrt (\<lambda>a b. fn a b < 0) left"
    and sr: "sorted_wrt (\<lambda>a b. fn a b < 0) right"
    and ok: "\<not> (\<exists>l r rs. left = [l] \<and> right = r # rs \<and> fn l r = 0)"
  shows "\<exists>out. alpm_list_mmerge_dedupe left right fn = Inr (out, fnf_calls (filter (dup_of fn right) left)) \<and>
      sorted_wrt (\<lambda>a b. fn a b < 0) out \<and>
      mset out = mset (filter (\<lambda>l. \<not> dup_of fn right l) left) + mset right \<and>
      (\<forall>x\<in>set left \<union> set right. length (filter (\<lambda>y. fn x y = 0) out) = 1)"
proof -
  have main: "\<exists>out. alpm_list_mmerge_dedupe left right fn = Inr (out, fnf_calls (filter (dup_of fn right) left)) \<and>
      sorted_wrt (\<lambda>a b. fn a b < 0) out \<and>
      mset out = mset (filter (\<lambda>l. \<not> dup_of fn right l) left) + mset right"
  proof (cases left)
    case Nil
    then show ?thesis using sr by (simp add: alpm_list_mmerge_dedupe_def fnf_call_def)
  next
    case L: (Cons l ls)
    show ?thesis
    proof (cases right)
      case Nil
      then show ?thesis using sl L by (simp add: alpm_list_mmerge_dedupe_def dup_of_def)
    next
      case R: (Cons r rs)
      have ok': "\<not> (ls = [] \<and> fn l r = 0)" using ok L R by simp
      from mmerge_first_inv[OF t sl[unfolded L] sr[unfolded R] ok']
      obtain n left1 right1 tr1 where
        F: "mmerge_first fn (l # ls) (r # rs) [] = Inr (n, left1, right1, tr1)"
        and s1: "sorted_wrt (\<lambda>a b. fn a b < 0) left1" "sorted_wrt (\<lambda>a b. fn a b < 0) right1"
        and n: "\<forall>x\<in>set left1 \<union> set right1. fn n x < 0"
        and tr: "tr1 @ fnf_calls (filter (dup_of fn right1) left1) = fnf_calls (filter (dup_of fn (r # rs)) (l # ls))"
        and ms: "{#n#} + mset (filter (\<lambda>l. \<not> dup_of fn right1 l) left1) + mset right1 =
                  mset (filter (\<lambda>l. \<not> dup_of fn (r # rs) l) (l # ls)) + mset (r # rs)"
        by blast
      have so: "sorted_wrt (\<lambda>a b. fn a b < 0) [n]" by simp
      have inv: "\<forall>a\<in>set [n]. \<forall>x\<in>set left1 \<union> set right1. fn a x < 0" using n by simp
      from mmerge_loop_inv[OF t s1 so inv, of tr1]
      obtain left2 right2 out2 where
        Lp: "mmerge_loop fn left1 right1 [n] tr1 =
               Inr (left2, right2, out2, tr1 @ fnf_calls (filter (dup_of fn right1) left1))"
        and e: "left2 = [] \<or> right2 = []"
        and s2: "sorted_wrt (\<lambda>a b. fn a b < 0) (out2 @ left2 @ right2)"
        and ms2: "mset (out2 @ left2 @ right2) = mset [n] + mset (filter (\<lambda>l. \<not> dup_of fn right1 l) left1) + mset right1"
        by blast
      have fin: "(if left2 \<noteq> [] then out2 @ left2 else if right2 \<noteq> [] then out2 @ right2 else out2)
                  = out2 @ left2 @ right2" using e by auto
      have "alpm_list_mmerge_dedupe left right fn =
              Inr (out2 @ left2 @ right2, fnf_calls (filter (dup_of fn right) left))"
        unfolding alpm_list_mmerge_dedupe_def L R using F Lp fin tr by simp
      moreover have "mset (out2 @ left2 @ right2) = mset (filter (\<lambda>l. \<not> dup_of fn right l) left) + mset right"
        using ms ms2 L R by simp
      ultimately show ?thesis using s2 by blast
    qed
  qed
  then obtain out where
    R: "alpm_list_mmerge_dedupe left right fn = Inr (out, fnf_calls (filter (dup_of fn right) left))"
    and so: "sorted_wrt (\<lambda>a b. fn a b < 0) out"
    and ms: "mset out = mset (filter (\<lambda>l. \<not> dup_of fn right l) left) + mset right"
    by blast
  have setout: "set out = {l \<in> set left. \<not> dup_of fn right l} \<union> set right"
    using ms by (metis set_filter set_mset_mset set_mset_union)
  have once: "length (filter (\<lambda>y. fn x y = 0) out) = 1" if x: "x \<in> set left \<union> set right" for x
  proof -
    have refl: "fn x x = 0" using cmp_refl[OF t] .
    have "\<exists>y\<in>set out. fn x y = 0"
    proof (cases "x \<in> set right")
      case True
      then show ?thesis using setout refl by blast
    next
      case False
      with x have xl: "x \<in> set left" by simp
      show ?thesis
      proof (cases "dup_of fn right x")
        case True
        then show ?thesis using setout unfolding dup_of_def by blast
      next
        case False
        then show ?thesis using xl setout refl by blast
      qed
    qed
    then have "filter (\<lambda>y. fn x y = 0) out \<noteq> []" by (simp add: filter_empty_conv)
    then have "length (filter (\<lambda>y. fn x y = 0) out) \<ge> 1" by (simp add: Suc_leI)
    with strict_sorted_filter_eq[OF t so, of x] show ?thesis by simp
  qed
  show ?thesis using R so ms once by blast
qed

lemma int_cmp_total: "total_order_cmp int_cmp"
  unfolding total_order_cmp_def
proof (intro conjI allI impI)
  fix a b :: "int option"
  show "(int_cmp a b < 0) = (0 < int_cmp b a)" by (cases a; cases b) auto
next
  fix a b c :: "int option"
  assume "int_cmp a b \<le> 0 \<and> int_cmp b c \<le> 0"
  then show "int_cmp a c \<le> 0" by (cases a; cases b; cases c) (auto split: if_splits)
qed

text \<open>The theorem at \<open>left = [1, 3]\<close>, \<open>right = [1, 2]\<close>: the result is \<open>[1, 2, 3]\<close>, with one disposal call.\<close>

theorem mmerge_dedupe_strictly_sorted_witness:
  "total_order_cmp int_cmp \<and>
   sorted_wrt (\<lambda>a b. int_cmp a b < 0) [Some 1, Some 3] \<and>
   sorted_wrt (\<lambda>a b. int_cmp a b < 0) [Some 1, Some 2] \<and>
   \<not> (\<exists>l r rs. [Some 1, Some 3] = [l] \<and> [Some 1, Some 2] = r # rs \<and> int_cmp l r = 0) \<and>
   alpm_list_mmerge_dedupe [Some 1, Some 3] [Some 1, Some 2] int_cmp = Inr ([Some 1, Some 2, Some 3], [1]) \<and>
   (\<exists>out. alpm_list_mmerge_dedupe [Some 1, Some 3] [Some 1, Some 2] int_cmp =
       Inr (out, fnf_calls (filter (dup_of int_cmp [Some 1, Some 2]) [Some 1, Some 3])) \<and>
     sorted_wrt (\<lambda>a b. int_cmp a b < 0) out \<and>
     mset out = mset (filter (\<lambda>l. \<not> dup_of int_cmp [Some 1, Some 2] l) [Some 1, Some 3]) + mset [Some 1, Some 2] \<and>
     (\<forall>x\<in>set [Some 1, Some 3] \<union> set [Some 1, Some 2]. length (filter (\<lambda>y. int_cmp x y = 0) out) = 1))"
proof -
  have h1: "total_order_cmp int_cmp" by (rule int_cmp_total)
  have h2: "sorted_wrt (\<lambda>a b. int_cmp a b < 0) [Some 1, Some 3]" by simp
  have h3: "sorted_wrt (\<lambda>a b. int_cmp a b < 0) [Some 1, Some 2]" by simp
  have h4: "\<not> (\<exists>l r rs. [Some 1, Some 3] = [l] \<and> [Some 1, Some 2] = r # rs \<and> int_cmp l r = 0)" by simp
  have ev: "alpm_list_mmerge_dedupe [Some 1, Some 3] [Some 1, Some 2] int_cmp = Inr ([Some 1, Some 2, Some 3], [1])"
    by (simp add: alpm_list_mmerge_dedupe_def fnf_call_def)
  show ?thesis using h1 h2 h3 h4 ev mmerge_dedupe_strictly_sorted[OF h1 h2 h3 h4] by blast
qed

text \<open>
  Claim C1 as stated asks for every element to appear once for any two sorted inputs.
  Elements that compare equal inside one input are never compared with each other:
  \<open>left = [1, 1]\<close>, \<open>right = [2]\<close> gives \<open>[1, 1, 2]\<close>, and nothing is disposed of.
\<close>

theorem mmerge_dedupe_keeps_input_duplicates:
  "alpm_list_mmerge_dedupe [Some 1, Some 1] [Some 2] int_cmp = Inr ([Some 1, Some 1, Some 2], [])
   \<and> int_cmp (Some 1) (Some 1) = 0"
  by (simp add: alpm_list_mmerge_dedupe_def fnf_call_def)

text \<open>
  Claim C8: when both inputs begin with equal elements the first loop is to stop once a
  list is exhausted. The loop of lines 68-79 tests only \<open>compare == 0\<close>: when the removal
  empties \<open>left\<close>, the next iteration reads \<open>left->data\<close> through \<open>NULL\<close>. The second
  loop (line 85) does test both pointers.
\<close>

theorem mmerge_dedupe_first_loop_null_deref:
  "alpm_list_mmerge_dedupe [Some 1] [Some 1] int_cmp = Inl NullDeref \<and>
   alpm_list_mmerge_dedupe [Some 1, Some 1] [Some 1] int_cmp = Inl NullDeref"
  by (simp add: alpm_list_mmerge_dedupe_def fnf_call_def)

section \<open>Properties of the resolution driver\<close>

lemma alpm_db_get_pkg_iff: "alpm_db_get_pkg db nm \<noteq> None \<longleftrightarrow> nm \<in> set (pkgcache db)"
  by (auto simp: alpm_db_get_pkg_def find_None_iff)

lemma alpm_sync_search_None_iff:
  "alpm_sync_search syncs target = None \<longleftrightarrow> (\<forall>db\<in>set syncs. target \<notin> set (pkgcache db))"
  by (induction syncs) (auto simp: list_ex_iff)

lemma alpm_sync_search_Some:
  "alpm_sync_search syncs target = Some db \<Longrightarrow> db \<in> set syncs \<and> target \<in> set (pkgcache db)"
  by (induction syncs) (auto simp: list_ex_iff split: if_splits)

text \<open>
  Claim C2: the body of the loop classifies a dependency in the order installed,
  repository, AUR, unresolved, and the first match ends it. A name in the local database
  is \<open>Installed\<close> whatever the repositories hold, and the only event is the local
  lookup: neither \<open>alpm_sync_search\<close> nor \<open>aur_rpc_query\<close> is called. A name in a
  repository is never sent to the AUR.
\<close>

theorem resolve_depend_priority:
  "(depend \<in> set (pkgcache (db_local w)) \<longrightarrow>
      resolve_depend w depend ret = (Installed, ret, [Local_lookup depend])) \<and>
   (depend \<notin> set (pkgcache (db_local w)) \<and> (\<exists>db\<in>set (syncdbs w). depend \<in> set (pkgcache db)) \<longrightarrow>
      (\<exists>db\<in>set (syncdbs w). depend \<in> set (pkgcache db) \<and>
         resolve_depend w depend ret =
           (AvailableInRepository, ret,
            [Local_lookup depend, Sync_search depend, Print_available depend (treename db)]))) \<and>
   (depend \<notin> set (pkgcache (db_local w)) \<and> (\<forall>db\<in>set (syncdbs w). depend \<notin> set (pkgcache db)) \<and>
    aur_rpc_query w depend \<noteq> [] \<longrightarrow>
      resolve_depend w depend ret =
        (AvailableInAUR, ret + 1,
         [Local_lookup depend, Sync_search depend, Aur_query depend,
          Aur_get_tarball (hd (aur_rpc_query w depend))
            (aur_get_tarball w (hd (aur_rpc_query w depend)))])) \<and>
   (depend \<notin> set (pkgcache (db_local w)) \<and> (\<forall>db\<in>set (syncdbs w). depend \<notin> set (pkgcache db)) \<and>
    aur_rpc_query w depend = [] \<longrightarrow>
      resolve_depend w depend ret =
        (Unresolved, ret, [Local_lookup depend, Sync_search depend, Aur_query depend]))"
proof (intro conjI impI)
  assume "depend \<in> set (pkgcache (db_local w))"
  then have "alpm_db_get_pkg (db_local w) depend \<noteq> None" using alpm_db_get_pkg_iff by blast
  then show "resolve_depend w depend ret = (Installed, ret, [Local_lookup depend])"
    by (simp add: resolve_depend_def)
next
  assume a: "depend \<notin> set (pkgcache (db_local w)) \<and> (\<exists>db\<in>set (syncdbs w). depend \<in> set (pkgcache db))"
  then have l: "alpm_db_get_pkg (db_local w) depend = None" using alpm_db_get_pkg_iff by blast
  from a have "alpm_sync_search (syncdbs w) depend \<noteq> None"
    by (simp add: alpm_sync_search_None_iff)
  then obtain db where s: "alpm_sync_search (syncdbs w) depend = Some db" by blast
  have "resolve_depend w depend ret =
           (AvailableInRepository, ret,
            [Local_lookup depend, Sync_search depend, Print_available depend (treename db)])"
    using l s by (simp add: resolve_depend_def is_in_pacman_def)
  with alpm_sync_search_Some[OF s]
  show "\<exists>db\<in>set (syncdbs w). depend \<in> set (pkgcache db) \<and>
         resolve_depend w depend ret =
           (AvailableInRepository, ret,
            [Local_lookup depend, Sync_search depend, Print_available depend (treename db)])"
    by blast
next
  assume a: "depend \<notin> set (pkgcache (db_local w)) \<and> (\<forall>db\<in>set (syncdbs w). depend \<notin> set (pkgcache db)) \<and>
    aur_rpc_query w depend \<noteq> []"
  then have l: "alpm_db_get_pkg (db_local w) depend = None" using alpm_db_get_pkg_iff by blast
  from a have s: "alpm_sync_search (syncdbs w) depend = None" by (simp add: alpm_sync_search_None_iff)
  from a obtain r rs where q: "aur_rpc_query w depend = r # rs" by (cases "aur_rpc_query w depend") auto
  show "resolve_depend w depend ret =
        (AvailableInAUR, ret + 1,
         [Local_lookup depend, Sync_search depend, Aur_query depend,
          Aur_get_tarball (hd (aur_rpc_query w depend))
            (aur_get_tarball w (hd (aur_rpc_query w depend)))])"
    using l s q by (simp add: resolve_depend_def is_in_pacman_def)
next
  assume a: "depend \<notin> set (pkgcache (db_local w)) \<and> (\<forall>db\<in>set (syncdbs w). depend \<notin> set (pkgcache db)) \<and>
    aur_rpc_query w depend = []"
  then have l: "alpm_db_get_pkg (db_local w) depend = None" using alpm_db_get_pkg_iff by blast
  from a have s: "alpm_sync_search (syncdbs w) depend = None" by (simp add: alpm_sync_search_None_iff)
  show "resolve_depend w depend ret =
        (Unresolved, ret, [Local_lookup depend, Sync_search depend, Aur_query depend])"
    using l s a by (simp add: resolve_depend_def is_in_pacman_def)
qed

text \<open>
  The four cases in the concrete world; \<open>x\<close> is in the local database and in \<open>core\<close>.
\<close>

theorem resolve_depend_priority_witness:
  "''x'' \<in> set (pkgcache (db_local example_world)) \<and>
   ''x'' \<in> set (pkgcache (hd (syncdbs example_world))) \<and>
   resolve_depend example_world ''x'' 0 = (Installed, 0, [Local_lookup ''x'']) \<and>
   resolve_depend example_world ''y'' 0 =
     (AvailableInRepository, 0, [Local_lookup ''y'', Sync_search ''y'', Print_available ''y'' ''core'']) \<and>
   resolve_depend example_world ''z'' 0 =
     (AvailableInAUR, 1, [Local_lookup ''z'', Sync_search ''z'', Aur_query ''z'', Aur_get_tarball pkg_z False]) \<and>
   resolve_depend example_world ''q'' 0 =
     (Unresolved, 0, [Local_lookup ''q'', Sync_search ''q'', Aur_query ''q''])"
proof -
  have x: "''x'' \<in> set (pkgcache (db_local example_world))" by (simp add: example_world_def)
  have x2: "''x'' \<in> set (pkgcache (hd (syncdbs example_world)))" by (simp add: example_world_def)
  have y: "''y'' \<notin> set (pkgcache (db_local example_world)) \<and>
           (\<exists>db\<in>set (syncdbs example_world). ''y'' \<in> set (pkgcache db))"
    by (simp add: example_world_def)
  have z: "''z'' \<notin> set (pkgcache (db_local example_world)) \<and>
           (\<forall>db\<in>set (syncdbs example_world). ''z'' \<notin> set (pkgcache db)) \<and>
           aur_rpc_query example_world ''z'' \<noteq> []"
    by (simp add: example_world_def)
  have q: "''q'' \<notin> set (pkgcache (db_local example_world)) \<and>
           (\<forall>db\<in>set (syncdbs example_world). ''q'' \<notin> set (pkgcache db)) \<and>
           aur_rpc_query example_world ''q'' = []"
    by (simp add: example_world_def)
  note P = resolve_depend_priority[of _ example_world 0]
  have 1: "resolve_depend example_world ''x'' 0 = (Installed, 0, [Local_lookup ''x''])"
    using P[of "''x''"] x by blast
  have 2: "resolve_depend example_world ''y'' 0 =
     (AvailableInRepository, 0, [Local_lookup ''y'', Sync_search ''y'', Print_available ''y'' ''core''])"
    using P[of "''y''"] y by (auto simp: example_world_def)
  have 3: "resolve_depend example_world ''z'' 0 =
     (AvailableInAUR, 1, [Local_lookup ''z'', Sync_search ''z'', Aur_query ''z'', Aur_get_tarball pkg_z False])"
    using P[of "''z''"] z by (simp add: example_world_def)
  have 4: "resolve_depend example_world ''q'' 0 =
     (Unresolved, 0, [Local_lookup ''q'', Sync_search ''q'', Aur_query ''q''])"
    using P[of "''q''"] q by blast
  show ?thesis using x x2 1 2 3 4 by blast
qed


lemma resolve_depend_count:
  "resolve_depend w d ret = (c, ret', ev) \<Longrightarrow>
     ret' = ret + (if found_in_aur w d then 1 else 0) \<and>
     length (filter is_tarball_call ev) = (if found_in_aur w d then 1 else 0) \<and>
     (c = AvailableInAUR) = found_in_aur w d"
  by (auto simp: resolve_depend_def is_in_pacman_def found_in_aur_def
           split: if_splits option.splits list.splits)

lemma resolve_all_count:
  "resolve_all w deplist ret evs = (ret', evs') \<Longrightarrow>
     ret' = ret + int (length (filter (found_in_aur w) deplist)) \<and>
     length (filter is_tarball_call evs') =
       length (filter is_tarball_call evs) + length (filter (found_in_aur w) deplist)"
proof (induction deplist arbitrary: ret evs)
  case Nil
  then show ?case by simp
next
  case (Cons d deplist)
  obtain c r1 ev where rd: "resolve_depend w d ret = (c, r1, ev)" by (metis prod_cases3)
  with Cons.prems have "resolve_all w deplist r1 (evs @ ev) = (ret', evs')" by simp
  from Cons.IH[OF this] resolve_depend_count[OF rd] show ?case by simp
qed

text \<open>
  Claim C3, as the code has it. When the recipe is read and parsed,
  \<open>get_pkg_dependencies\<close> returns the number of dependencies that are neither installed
  nor in a repository and for which the AUR query returned a result; it is the number
  of calls of \<open>aur_get_tarball\<close>, whatever their outcome. A query without result is not
  counted, and neither a query without result nor a failed download ends the pass.
\<close>

theorem get_pkg_dependencies_count:
  assumes dir: "(case download_dir w of None \<Rightarrow> getcwd w | Some d \<Rightarrow> realpath w d) = Some dir"
    and fits: "length dir + length pkg + 11 \<le> PATH_MAX + 1"
    and fil: "get_file_as_buffer w (dir @ ''/'' @ pkg @ ''/PKGBUILD'') = Some text"
    and deps: "pkgbuild_get_deps (text @ [NUL]) = Inr (deplist, buffer)"
  shows "\<exists>evs. get_pkg_dependencies w pkg =
                 Inr (int (length (filter (found_in_aur w) deplist)), evs) \<and>
               length (filter is_tarball_call evs) = length (filter (found_in_aur w) deplist)"
proof -
  obtain ret evs where r: "resolve_all w deplist 0 [] = (ret, evs)" by (metis surj_pair)
  have g: "get_pkg_dependencies w pkg = Inr (ret, evs)"
    unfolding get_pkg_dependencies_def using dir fits fil deps r by (simp add: Let_def)
  from resolve_all_count[OF r] g show ?thesis by simp
qed


lemma example_deps:
  "pkgbuild_get_deps (''pkgname=foo\<newline>depends=(x y z q)\<newline>'' @ [NUL]) =
     Inr ([''x'', ''y'', ''z'', ''q''], ''pkgname=foo\<newline>depends=(x'' @ [NUL] @ ''y'' @ [NUL] @ ''z'' @ [NUL] @ ''q'' @ [NUL, NUL, NUL])"
  by code_simp


lemma get_pkg_dependencies_readable:
  assumes dir: "(case download_dir w of None \<Rightarrow> getcwd w | Some d \<Rightarrow> realpath w d) = Some dir"
    and fits: "length dir + length pkg + 11 \<le> PATH_MAX + 1"
    and fil: "get_file_as_buffer w (dir @ ''/'' @ pkg @ ''/PKGBUILD'') = Some text"
    and deps: "pkgbuild_get_deps (text @ [NUL]) = Inr (deplist, buffer)"
  shows "get_pkg_dependencies w pkg = Inr (resolve_all w deplist 0 [])"
  unfolding get_pkg_dependencies_def using dir fits fil deps by (simp add: Let_def)

lemma example_foo:
  "get_pkg_dependencies example_world ''foo'' =
     Inr (1, [Local_lookup ''x'',
              Local_lookup ''y'', Sync_search ''y'', Print_available ''y'' ''core'',
              Local_lookup ''z'', Sync_search ''z'', Aur_query ''z'', Aur_get_tarball pkg_z False,
              Local_lookup ''q'', Sync_search ''q'', Aur_query ''q''])"
proof -
  have h1: "(case download_dir example_world of None \<Rightarrow> getcwd example_world
      | Some d \<Rightarrow> realpath example_world d) = Some ''/tmp''"
    by (simp add: example_world_def)
  have h2: "length ''/tmp'' + length ''foo'' + 11 \<le> PATH_MAX + 1" by (simp add: PATH_MAX_def)
  have h3: "get_file_as_buffer example_world (''/tmp'' @ ''/'' @ ''foo'' @ ''/PKGBUILD'') =
     Some ''pkgname=foo\<newline>depends=(x y z q)\<newline>''"
    by (simp add: example_world_def)
  have r: "resolve_all example_world [''x'', ''y'', ''z'', ''q''] 0 [] =
     (1, [Local_lookup ''x'',
              Local_lookup ''y'', Sync_search ''y'', Print_available ''y'' ''core'',
              Local_lookup ''z'', Sync_search ''z'', Aur_query ''z'', Aur_get_tarball pkg_z False,
              Local_lookup ''q'', Sync_search ''q'', Aur_query ''q''])"
    by (simp add: example_world_def resolve_depend_def alpm_db_get_pkg_def is_in_pacman_def)
  show ?thesis using get_pkg_dependencies_readable[OF h1 h2 h3 example_deps] r by simp
qed

text \<open>
  The theorem in the concrete world: of \<open>x y z q\<close> only \<open>z\<close> is found in the AUR.
\<close>

theorem get_pkg_dependencies_count_witness:
  "(case download_dir example_world of None \<Rightarrow> getcwd example_world
      | Some d \<Rightarrow> realpath example_world d) = Some ''/tmp'' \<and>
   length ''/tmp'' + length ''foo'' + 11 \<le> PATH_MAX + 1 \<and>
   get_file_as_buffer example_world (''/tmp'' @ ''/'' @ ''foo'' @ ''/PKGBUILD'') =
     Some ''pkgname=foo\<newline>depends=(x y z q)\<newline>'' \<and>
   filter (found_in_aur example_world) [''x'', ''y'', ''z'', ''q''] = [''z''] \<and>
   (\<exists>evs. get_pkg_dependencies example_world ''foo'' = Inr (1, evs) \<and>
          length (filter is_tarball_call evs) = 1)"
proof -
  have h1: "(case download_dir example_world of None \<Rightarrow> getcwd example_world
      | Some d \<Rightarrow> realpath example_world d) = Some ''/tmp''"
    by (simp add: example_world_def)
  have h2: "length ''/tmp'' + length ''foo'' + 11 \<le> PATH_MAX + 1" by (simp add: PATH_MAX_def)
  have h3: "get_file_as_buffer example_world (''/tmp'' @ ''/'' @ ''foo'' @ ''/PKGBUILD'') =
     Some ''pkgname=foo\<newline>depends=(x y z q)\<newline>''"
    by (simp add: example_world_def)
  have f: "filter (found_in_aur example_world) [''x'', ''y'', ''z'', ''q''] = [''z'']"
    by (simp add: found_in_aur_def example_world_def alpm_db_get_pkg_def)
  from get_pkg_dependencies_count[OF h1 h2 h3 example_deps] f h1 h2 h3
  show ?thesis by simp
qed

text \<open>
  Claim C3 as stated has only successful downloads counted. \<open>ret++\<close> (line 177) comes
  before \<open>aur_get_tarball\<close> (line 178), whose result is dropped: in the concrete world
  the one download fails, no event is a successful download, and the pass returns \<open>1\<close>.
\<close>

theorem failed_tarball_is_counted:
  "get_pkg_dependencies example_world ''foo'' =
     Inr (1, [Local_lookup ''x'',
              Local_lookup ''y'', Sync_search ''y'', Print_available ''y'' ''core'',
              Local_lookup ''z'', Sync_search ''z'', Aur_query ''z'', Aur_get_tarball pkg_z False,
              Local_lookup ''q'', Sync_search ''q'', Aur_query ''q'']) \<and>
   filter is_tarball_fetched
     [Local_lookup ''x'',
      Local_lookup ''y'', Sync_search ''y'', Print_available ''y'' ''core'',
      Local_lookup ''z'', Sync_search ''z'', Aur_query ''z'', Aur_get_tarball pkg_z False,
      Local_lookup ''q'', Sync_search ''q'', Aur_query ''q''] = []"
  using example_foo by simp

text \<open>
  Claim C4, as the code has it. When \<open>get_file_as_buffer\<close> returns \<open>NULL\<close>,
  \<open>get_pkg_dependencies\<close> prints the error line and returns \<open>1\<close>; nothing is parsed, no
  dependency is looked up and no tarball is fetched.
\<close>

theorem get_pkg_dependencies_no_recipe:
  assumes dir: "(case download_dir w of None \<Rightarrow> getcwd w | Some d \<Rightarrow> realpath w d) = Some dir"
    and fits: "length dir + length pkg + 11 \<le> PATH_MAX + 1"
    and fil: "get_file_as_buffer w (dir @ ''/'' @ pkg @ ''/PKGBUILD'') = None"
  shows "get_pkg_dependencies w pkg = Inr (1, [Print_could_not_open])"
  unfolding get_pkg_dependencies_def using dir fits fil by (simp add: Let_def)

text \<open>
  The theorem in the concrete world, which has no recipe for \<open>bar\<close>.
\<close>

theorem get_pkg_dependencies_no_recipe_witness:
  "(case download_dir example_world of None \<Rightarrow> getcwd example_world
      | Some d \<Rightarrow> realpath example_world d) = Some ''/tmp'' \<and>
   length ''/tmp'' + length ''bar'' + 11 \<le> PATH_MAX + 1 \<and>
   get_file_as_buffer example_world (''/tmp'' @ ''/'' @ ''bar'' @ ''/PKGBUILD'') = None \<and>
   get_pkg_dependencies example_world ''bar'' = Inr (1, [Print_could_not_open])"
proof -
  have h1: "(case download_dir example_world of None \<Rightarrow> getcwd example_world
      | Some d \<Rightarrow> realpath example_world d) = Some ''/tmp''"
    by (simp add: example_world_def)
  have h2: "length ''/tmp'' + length ''bar'' + 11 \<le> PATH_MAX + 1" by (simp add: PATH_MAX_def)
  have h3: "get_file_as_buffer example_world (''/tmp'' @ ''/'' @ ''bar'' @ ''/PKGBUILD'') = None"
    by (simp add: example_world_def)
  from get_pkg_dependencies_no_recipe[OF h1 h2 h3] h1 h2 h3 show ?thesis by blast
qed

text \<open>
  Claim C4 as stated has the failure distinguishable from every fetched count. The
  value returned for the missing recipe of \<open>bar\<close> is the \<open>1\<close> that the pass over \<open>foo\<close>
  returns for its one AUR dependency.
\<close>

theorem missing_recipe_returns_a_count:
  "get_file_as_buffer example_world ''/tmp/bar/PKGBUILD'' = None \<and>
   map_sum id fst (get_pkg_dependencies example_world ''bar'') = Inr 1 \<and>
   get_file_as_buffer example_world ''/tmp/foo/PKGBUILD'' =
     Some ''pkgname=foo\<newline>depends=(x y z q)\<newline>'' \<and>
   map_sum id fst (get_pkg_dependencies example_world ''foo'') = Inr 1"
proof -
  have "get_pkg_dependencies example_world ''bar'' = Inr (1, [Print_could_not_open])"
    unfolding get_pkg_dependencies_def by (simp add: example_world_def PATH_MAX_def)
  then show ?thesis using example_foo by (simp add: example_world_def)
qed

section \<open>Properties of the parser\<close>

subsection \<open>Strings in the buffer and \<open>strtok\<close>\<close>

declare tokens_by.simps [simp del]

lemma cstr_poke_below: "i < p \<Longrightarrow> cstr (poke m i c) p = cstr m p"
  by (simp add: cstr_def poke_def)

lemma takeWhile_update_cut:
  "k \<le> length (takeWhile P xs) \<Longrightarrow> \<not> P z \<Longrightarrow> takeWhile P (xs[k := z]) = take k (takeWhile P xs)"
proof (induction xs arbitrary: k)
  case Nil then show ?case by simp
next
  case (Cons x xs)
  then show ?case by (cases k) (auto split: if_splits)
qed

lemma cstr_poke_cut:
  assumes "k \<le> length (cstr m p)"
  shows "cstr (poke m (p + k) NUL) p = take k (cstr m p)"
proof -
  have "drop p (m[p + k := NUL]) = (drop p m)[k := NUL]"
    by (simp add: drop_update_swap)
  then show ?thesis using assms takeWhile_update_cut[of k "\<lambda>c. c \<noteq> NUL" "drop p m" NUL]
    by (simp add: cstr_def poke_def)
qed

lemma peek_hd: "cstr m p \<noteq> [] \<Longrightarrow> peek m p = hd (cstr m p)"
proof -
  assume a: "cstr m p \<noteq> []"
  then have lt: "p < length m" by (rule cstr_nonempty_lt)
  then have "drop p m = m ! p # drop (Suc p) m" by (simp add: Cons_nth_drop_Suc)
  with a lt show ?thesis by (auto simp: cstr_def peek_def split: if_splits)
qed

lemma peek_nth: "j < length (cstr m p) \<Longrightarrow> peek m (p + j) = cstr m p ! j"
proof -
  assume a: "j < length (cstr m p)"
  then have "cstr m (p + j) = drop j (cstr m p)" using cstr_add[of j m p] by simp
  moreover from a have "drop j (cstr m p) \<noteq> []" by simp
  ultimately show ?thesis using peek_hd[of m "p + j"] a by (simp add: hd_drop_conv_nth)
qed

lemma tokens_Nil: "dropWhile (\<lambda>c. c \<in> set d) s = [] \<Longrightarrow> tokens_by d s = []"
  by (subst tokens_by.simps) simp

lemma tokens_Cons:
  "dropWhile (\<lambda>c. c \<in> set d) s = s1 \<Longrightarrow> s1 \<noteq> [] \<Longrightarrow>
   tokens_by d s = takeWhile (\<lambda>c. c \<notin> set d) s1 # tokens_by d (dropWhile (\<lambda>c. c \<notin> set d) s1)"
  by (subst tokens_by.simps) (simp add: Let_def)

lemma tokens_skip_delim: "c \<in> set d \<Longrightarrow> tokens_by d (c # s) = tokens_by d s"
  by (subst tokens_by.simps, subst (2) tokens_by.simps) simp

lemma strtok_unfold:
  "strtok m str d olds =
     (let s0 = (case str of Some p \<Rightarrow> p | None \<Rightarrow> olds); s = s0 + strspn m s0 d
      in if cstr m s = [] then (None, m, s)
         else if cstr m (s + strcspn m s d) = [] then (Some s, m, s + strcspn m s d)
         else (Some s, poke m (s + strcspn m s d) NUL, s + strcspn m s d + 1))"
  by (simp add: strtok_def Let_def cstr_nil_iff)

lemma strtok_tokens:
  assumes s0: "s0 = (case str of Some p \<Rightarrow> p | None \<Rightarrow> olds)"
  shows "case strtok m str token_delims olds of
           (None, m', o') \<Rightarrow> tokens_by token_delims (cstr m s0) = [] \<and> m' = m
         | (Some t, m', o') \<Rightarrow>
             tokens_by token_delims (cstr m s0) = cstr m' t # tokens_by token_delims (cstr m' o') \<and> resumes m' t o' \<and> s0 \<le> t"
proof -
  define t where "t = s0 + strspn m s0 token_delims"
  define s1 where "s1 = dropWhile (\<lambda>c. c \<in> set token_delims) (cstr m s0)"
  define e where "e = t + strcspn m t token_delims"
  define tok where "tok = takeWhile (\<lambda>c. c \<notin> set token_delims) s1"
  define rest where "rest = dropWhile (\<lambda>c. c \<notin> set token_delims) s1"
  have c1: "cstr m t = s1" unfolding t_def s1_def by (rule cstr_strspn)
  have ce: "cstr m e = rest" unfolding e_def rest_def c1[symmetric] by (rule cstr_strcspn)
  have le: "e = t + length tok" unfolding e_def tok_def strcspn_def c1 ..
  have t0: "s0 \<le> t" unfolding t_def by simp
  have st: "strtok m str token_delims olds =
     (if s1 = [] then (None, m, t)
      else if rest = [] then (Some t, m, e)
      else (Some t, poke m e NUL, e + 1))"
    unfolding strtok_unfold[of m str token_delims olds] s0[symmetric] Let_def
      t_def[symmetric] e_def[symmetric] c1 ce ..
  show ?thesis
  proof (cases "s1 = []")
    case True
    have "tokens_by token_delims (cstr m s0) = []" using True unfolding s1_def by (rule tokens_Nil)
    then show ?thesis unfolding st using True by simp
  next
    case False
    have tk: "tokens_by token_delims (cstr m s0) = tok # tokens_by token_delims rest"
      unfolding tok_def rest_def using tokens_Cons[OF s1_def[symmetric] False] .
    have "dropWhile (\<lambda>c. c \<in> set token_delims) (cstr m s0) \<noteq> []" using False unfolding s1_def .
    then have "\<not> hd (dropWhile (\<lambda>c. c \<in> set token_delims) (cstr m s0)) \<in> set token_delims"
      by (rule hd_dropWhile)
    then have h: "hd s1 \<notin> set token_delims" unfolding s1_def .
    from False obtain a as where s1c: "s1 = a # as" unfolding neq_Nil_conv by blast
    have tokne: "tok \<noteq> []" unfolding tok_def s1c using h s1c by simp
    show ?thesis
    proof (cases "rest = []")
      case True
      have "tok @ rest = s1" unfolding tok_def rest_def by simp
      then have ct: "cstr m t = tok" using True c1 by simp
      have tr: "tokens_by token_delims rest = []" using True by (simp add: tokens_Nil)
      have "resumes m t e" unfolding resumes_def using ct tokne le ce True by simp
      then show ?thesis unfolding st using False True tk tr ct ce t0 by simp
    next
      case R: False
      have "length tok \<le> length (cstr m t)" unfolding c1 tok_def by (rule length_takeWhile_le)
      from cstr_poke_cut[OF this] have "cstr (poke m e NUL) t = take (length tok) s1"
        unfolding le c1 .
      also have "\<dots> = tok" unfolding tok_def by (rule takeWhile_eq_take[symmetric])
      finally have ct: "cstr (poke m e NUL) t = tok" .
      from R obtain b bs where rc: "rest = b # bs" unfolding neq_Nil_conv by blast
      have "cstr (poke m e NUL) (e + 1) = cstr m (e + 1)" by (rule cstr_poke_below) simp
      also have "\<dots> = drop 1 (cstr m e)" by (rule cstr_add) (simp add: ce rc)
      also have "\<dots> = bs" by (simp add: ce rc)
      finally have co: "cstr (poke m e NUL) (e + 1) = bs" .
      have "dropWhile (\<lambda>c. c \<notin> set token_delims) s1 \<noteq> []" using R unfolding rest_def .
      then have "\<not> hd (dropWhile (\<lambda>c. c \<notin> set token_delims) s1) \<notin> set token_delims"
        by (rule hd_dropWhile)
      then have "b \<in> set token_delims" unfolding rest_def[symmetric] rc by simp
      then have tr: "tokens_by token_delims rest = tokens_by token_delims bs" unfolding rc by (rule tokens_skip_delim)
      have "resumes (poke m e NUL) t (e + 1)" unfolding resumes_def using ct tokne le by simp
      then show ?thesis unfolding st using False R tk tr ct co t0 by simp
    qed
  qed
qed


lemma cstr_poke_NUL_le:
  assumes "w \<le> p" and "w = p \<Longrightarrow> cstr m p = []"
  shows "cstr (poke m w NUL) p = cstr m p"
proof (cases "w < p")
  case True
  then show ?thesis by (rule cstr_poke_below)
next
  case False
  with assms have wp: "w = p" and e: "cstr m p = []" by simp_all
  have "cstr (poke m (p + 0) NUL) p = take 0 (cstr m p)" by (rule cstr_poke_cut) simp
  then show ?thesis using wp e by simp
qed

lemma skip_quote_cstr:
  assumes ne: "cstr m token0 \<noteq> []"
  shows "cstr m (skip_quote m token0) = drop_quote (cstr m token0) \<and>
         skip_quote m token0 + length (cstr m (skip_quote m token0)) = token0 + length (cstr m token0) \<and>
         token0 \<le> skip_quote m token0 \<and>
         (cstr m (skip_quote m token0) = [] \<longrightarrow>
            skip_quote m token0 = token0 + 1 \<and> is_quote (peek m token0))"
proof -
  from ne obtain a as where tc: "cstr m token0 = a # as" unfolding neq_Nil_conv by blast
  have pk: "peek m token0 = a" using peek_hd[OF ne] tc by simp
  show ?thesis
  proof (cases "is_quote a")
    case True
    then have sk: "skip_quote m token0 = token0 + 1" by (simp add: skip_quote_def pk)
    have "cstr m (token0 + 1) = drop 1 (cstr m token0)" by (rule cstr_add) (simp add: tc)
    then have "cstr m (token0 + 1) = as" by (simp add: tc)
    then show ?thesis unfolding sk using True tc pk by (simp add: drop_quote_def)
  next
    case False
    then have sk: "skip_quote m token0 = token0" by (simp add: skip_quote_def pk)
    show ?thesis unfolding sk using False tc by (simp add: drop_quote_def)
  qed
qed

lemma cut_token_stripped:
  assumes r: "resumes m token0 olds"
  shows "cstr (cut_token m (skip_quote m token0) True) (skip_quote m token0) = strip_name (cstr m token0) \<and>
         cstr (cut_token m (skip_quote m token0) True) olds = cstr m olds"
proof -
  define token where "token = skip_quote m token0"
  define u where "u = cstr m token"
  define k where "k = strcspn m token strip_chars"
  from r have ne: "cstr m token0 \<noteq> []" by (simp add: resumes_def)
  note sq = skip_quote_cstr[OF ne, folded token_def]
  have ud: "u = drop_quote (cstr m token0)" unfolding u_def using sq by blast
  have len: "token + length u = token0 + length (cstr m token0)" unfolding u_def using sq by blast
  have kt: "k = length (takeWhile (\<lambda>c. c \<notin> set strip_chars) u)" unfolding k_def strcspn_def u_def ..
  have kle: "k \<le> length (cstr m token)" unfolding kt u_def by (rule length_takeWhile_le)
  have cm: "cut_token m token True = poke m (token + k) NUL" by (simp add: cut_token_def k_def)
  have "cstr (poke m (token + k) NUL) token = take k u" unfolding u_def using kle by (rule cstr_poke_cut)
  also have "\<dots> = takeWhile (\<lambda>c. c \<notin> set strip_chars) u" unfolding kt by (rule takeWhile_eq_take[symmetric])
  finally have 1: "cstr (cut_token m token True) token = strip_name (cstr m token0)"
    unfolding cm strip_name_def ud .
  have wle: "token + k \<le> token0 + length (cstr m token0)" using kle len unfolding u_def by simp
  have 2: "cstr (poke m (token + k) NUL) olds = cstr m olds"
  proof (rule cstr_poke_NUL_le)
    show "token + k \<le> olds" using wle r by (auto simp: resumes_def)
    show "cstr m olds = []" if "token + k = olds" using that wle r by (auto simp: resumes_def)
  qed
  have a2: "cstr (cut_token m token True) olds = cstr m olds" unfolding cm by (rule 2)
  from 1 a2 show ?thesis unfolding token_def by (rule conjI)
qed

lemma cut_token_raw:
  assumes r: "resumes m token0 olds"
  shows "cstr (cut_token m (skip_quote m token0) False) (skip_quote m token0) = raw_name (cstr m token0) \<and>
         cstr (cut_token m (skip_quote m token0) False) olds = cstr m olds"
proof -
  define token where "token = skip_quote m token0"
  define u where "u = cstr m token"
  from r have ne: "cstr m token0 \<noteq> []" by (simp add: resumes_def)
  note sq = skip_quote_cstr[OF ne, folded token_def]
  have ud: "u = drop_quote (cstr m token0)" unfolding u_def using sq by blast
  have len: "token + length u = token0 + length (cstr m token0)" unfolding u_def using sq by blast
  have ole: "token0 + length (cstr m token0) \<le> olds" using r by (auto simp: resumes_def)
  have rn: "raw_name (cstr m token0) = (if u \<noteq> [] \<and> is_quote (last u) then butlast u else u)"
    unfolding raw_name_def ud[symmetric] Let_def ..
  have sl: "strlen m token = length u" by (simp add: strlen_def u_def)
  show ?thesis
  proof (cases "u = []")
    case True
    then have tk: "token = token0 + 1" and q: "is_quote (peek m token0)" using sq unfolding u_def by blast+
    have ptr: "token + strlen m token - 1 = token0" unfolding sl using True tk by simp
    have cm: "cut_token m token False = poke m token0 NUL"
      unfolding cut_token_def Let_def ptr using q by simp
    have 1: "cstr (poke m token0 NUL) token = cstr m token" by (rule cstr_poke_below) (simp add: tk)
    have "token0 < olds" using ole ne by (cases "cstr m token0") auto
    then have 2: "cstr (poke m token0 NUL) olds = cstr m olds" by (rule cstr_poke_below)
    have a1: "cstr (cut_token m token False) token = raw_name (cstr m token0)"
      unfolding cm 1 rn using True u_def by simp
    have a2: "cstr (cut_token m token False) olds = cstr m olds" unfolding cm by (rule 2)
    from a1 a2 show ?thesis unfolding token_def by (rule conjI)
  next
    case False
    define j where "j = length u - 1"
    have jl: "j < length u" using False by (simp add: j_def)
    have "length u \<ge> 1" using False by (simp add: Suc_le_eq)
    then have ptr: "token + strlen m token - 1 = token + j" unfolding sl j_def by simp
    have "peek m (token + j) = u ! j" unfolding u_def by (rule peek_nth) (use jl u_def in simp)
    also have "\<dots> = last u" unfolding j_def using False by (simp add: last_conv_nth)
    finally have pk: "peek m (token + j) = last u" .
    show ?thesis
    proof (cases "is_quote (last u)")
      case True
      have cm: "cut_token m token False = poke m (token + j) NUL"
        unfolding cut_token_def Let_def ptr using True pk by simp
      have "cstr (poke m (token + j) NUL) token = take j (cstr m token)"
        by (rule cstr_poke_cut) (use jl u_def in simp)
      also have "\<dots> = butlast u" unfolding u_def[symmetric] j_def by (simp add: butlast_conv_take)
      finally have 1: "cstr (poke m (token + j) NUL) token = butlast u" .
      have "token + j < olds" using jl len ole by simp
      then have 2: "cstr (poke m (token + j) NUL) olds = cstr m olds" by (rule cstr_poke_below)
      have a1: "cstr (cut_token m token False) token = raw_name (cstr m token0)"
        unfolding cm 1 rn using True False by simp
      have a2: "cstr (cut_token m token False) olds = cstr m olds" unfolding cm by (rule 2)
      from a1 a2 show ?thesis unfolding token_def by (rule conjI)
    next
      case F: False
      have cm: "cut_token m token False = m" unfolding cut_token_def Let_def ptr using F pk by simp
      have a1: "cstr (cut_token m token False) token = raw_name (cstr m token0)"
        unfolding cm rn using F u_def by simp
      have a2: "cstr (cut_token m token False) olds = cstr m olds" unfolding cm ..
      from a1 a2 show ?thesis unfolding token_def by (rule conjI)
    qed
  qed
qed

lemma cut_token_refines:
  assumes r: "resumes m token0 olds"
  shows "cstr (cut_token m (skip_quote m token0) b) (skip_quote m token0) =
           (if b then strip_name else raw_name) (cstr m token0) \<and>
         cstr (cut_token m (skip_quote m token0) b) olds = cstr m olds"
  using cut_token_stripped[OF r] cut_token_raw[OF r] by (cases b) simp_all

lemma add_token_unique: "add_token deplist t = add_unique deplist t"
  by (auto simp: add_token_def add_unique_def alpm_list_find_str_def alpm_list_add_def find_None_iff)

lemma parse_tokens_refines:
  "(\<And>t0. token = Some t0 \<Longrightarrow> resumes m t0 olds) \<Longrightarrow>
   fst (parse_tokens m token olds dl b) =
     foldl add_unique dl (map (if b then strip_name else raw_name)
        (case token of None \<Rightarrow> [] | Some t0 \<Rightarrow> cstr m t0 # tokens_by token_delims (cstr m olds)))"
proof (induction m token olds dl b rule: parse_tokens.induct)
  case (1 m olds deplist stripdeps)
  show ?case by simp
next
  case (2 m token0 olds deplist stripdeps)
  define token where "token = skip_quote m token0"
  define m1 where "m1 = cut_token m token stripdeps"
  define dl1 where "dl1 = add_token deplist (cstr m1 token)"
  define norm where "norm = (if stripdeps then strip_name else raw_name)"
  have r: "resumes m token0 olds" using "2.prems" by simp
  note ct = cut_token_refines[OF r, of stripdeps, folded token_def, folded m1_def, folded norm_def]
  obtain t2 m2 o2 where st: "strtok m1 None token_delims olds = (t2, m2, o2)" by (metis prod_cases3)
  have pt: "parse_tokens m (Some token0) olds deplist stripdeps = parse_tokens m2 t2 o2 dl1 stripdeps"
    using st by (simp add: Let_def token_def m1_def dl1_def)
  note tk = strtok_tokens[where ?s0.0=olds and str=None and olds=olds and m=m1, simplified, unfolded st]
  have pre: "\<And>t0. t2 = Some t0 \<Longrightarrow> resumes m2 t0 o2" using tk by auto
  have IH: "fst (parse_tokens m2 t2 o2 dl1 stripdeps) =
     foldl add_unique dl1 (map norm
        (case t2 of None \<Rightarrow> [] | Some t0 \<Rightarrow> cstr m2 t0 # tokens_by token_delims (cstr m2 o2)))"
    unfolding norm_def using "2.IH"[OF token_def m1_def dl1_def st[symmetric] refl pre] by simp
  have "tokens_by token_delims (cstr m1 olds) = (case t2 of None \<Rightarrow> [] | Some t0 \<Rightarrow> cstr m2 t0 # tokens_by token_delims (cstr m2 o2))"
    using tk by (cases t2) auto
  then have tks: "tokens_by token_delims (cstr m olds) = (case t2 of None \<Rightarrow> [] | Some t0 \<Rightarrow> cstr m2 t0 # tokens_by token_delims (cstr m2 o2))"
    using ct by simp
  have d1: "dl1 = add_unique deplist (norm (cstr m token0))"
    unfolding dl1_def add_token_unique using ct by simp
  have "fst (parse_tokens m (Some token0) olds deplist stripdeps) =
          foldl add_unique dl1 (map norm (tokens_by token_delims (cstr m olds)))"
    unfolding pt IH tks ..
  also have "\<dots> = foldl add_unique deplist (map norm (cstr m token0 # tokens_by token_delims (cstr m olds)))"
    unfolding d1 by simp
  finally show ?case unfolding norm_def by simp
qed

lemma parse_bash_array_refines:
  "fst (parse_bash_array deplist m deparray stripdeps) =
     extract_by token_delims stripdeps deplist (cstr m deparray)"
proof -
  obtain t m1 o1 where st: "strtok m (Some deparray) token_delims 0 = (t, m1, o1)" by (metis prod_cases3)
  note tk = strtok_tokens[where ?s0.0=deparray and str="Some deparray" and olds=0 and m=m, simplified, unfolded st]
  have pre: "\<And>t0. t = Some t0 \<Longrightarrow> resumes m1 t0 o1" using tk by auto
  have "tokens_by token_delims (cstr m deparray) = (case t of None \<Rightarrow> [] | Some t0 \<Rightarrow> cstr m1 t0 # tokens_by token_delims (cstr m1 o1))"
    using tk by (cases t) auto
  then show ?thesis
    unfolding parse_bash_array_def st extract_by_def using parse_tokens_refines[OF pre] by simp
qed

text \<open>
  Two sets of delimiters that agree on the characters of a string cut it into the same
  tokens; so the tokens of \<open>strtok\<close> are the tokens cut at whitespace when the string has
  no whitespace but spaces and newlines.
\<close>

lemma tokens_by_cong:
  "(\<And>c. c \<in> set s \<Longrightarrow> (c \<in> set d1) = (c \<in> set d2)) \<Longrightarrow> tokens_by d1 s = tokens_by d2 s"
proof (induction d1 s rule: tokens_by.induct)
  case (1 delims s)
  let ?s1 = "dropWhile (\<lambda>c. c \<in> set delims) s"
  have dw: "dropWhile (\<lambda>c. c \<in> set d2) s = ?s1"
    by (rule dropWhile_cong[OF refl]) (simp add: 1(2))
  show ?case
  proof (cases "?s1 = []")
    case True
    then show ?thesis using dw by (simp add: tokens_Nil)
  next
    case False
    have sub: "set ?s1 \<subseteq> set s" by (rule set_dropWhileD[THEN subsetI])
    have tw: "takeWhile (\<lambda>c. c \<notin> set d2) ?s1 = takeWhile (\<lambda>c. c \<notin> set delims) ?s1"
      by (rule takeWhile_cong[OF refl]) (use sub 1(2) in auto)
    have dw2: "dropWhile (\<lambda>c. c \<notin> set d2) ?s1 = dropWhile (\<lambda>c. c \<notin> set delims) ?s1"
      by (rule dropWhile_cong[OF refl]) (use sub 1(2) in auto)
    have sub2: "set (dropWhile (\<lambda>c. c \<notin> set delims) ?s1) \<subseteq> set s"
      using sub set_dropWhileD[of _ "\<lambda>c. c \<notin> set delims" ?s1] by blast
    have IH: "tokens_by delims (dropWhile (\<lambda>c. c \<notin> set delims) ?s1) = tokens_by d2 (dropWhile (\<lambda>c. c \<notin> set delims) ?s1)"
      by (rule 1(1)[OF refl False]) (use sub2 1(2) in auto)
    show ?thesis
      unfolding tokens_Cons[OF refl False] tokens_Cons[OF dw False] tw dw2 IH ..
  qed
qed

lemma extract_by_whitespace:
  assumes "set s \<inter> set whitespace \<subseteq> set token_delims"
  shows "extract_by token_delims b dl s = extract_array b dl s"
proof -
  have "tokens_by token_delims s = tokens_by whitespace s"
  proof (rule tokens_by_cong)
    fix c assume "c \<in> set s"
    then show "(c \<in> set token_delims) = (c \<in> set whitespace)"
      using assms by (auto simp: token_delims_def whitespace_def)
  qed
  then show ?thesis by (simp add: extract_by_def extract_array_def)
qed

subsection \<open>The parser does not look before its pointer\<close>

lemma cstr_shift [simp]: "cstr (pre @ m) (length pre + p) = cstr m p"
  by (simp add: cstr_def)

lemma peek_shift [simp]: "peek (pre @ m) (length pre + p) = peek m p"
  by (simp add: peek_def nth_append)

lemma poke_shift [simp]: "poke (pre @ m) (length pre + p) c = pre @ poke m p c"
  by (simp add: poke_def list_update_append)

lemma strlen_shift [simp]: "strlen (pre @ m) (length pre + p) = strlen m p"
  by (simp add: strlen_def)

lemma strspn_shift [simp]: "strspn (pre @ m) (length pre + p) d = strspn m p d"
  by (simp add: strspn_def)

lemma strcspn_shift [simp]: "strcspn (pre @ m) (length pre + p) d = strcspn m p d"
  by (simp add: strcspn_def)

lemma strchr_shift [simp]:
  "strchr (pre @ m) (length pre + p) c = map_option (\<lambda>q. length pre + q) (strchr m p c)"
  by (simp add: strchr_def Let_def)

lemma line_starts_with_shift [simp]:
  "line_starts_with (pre @ m) (length pre + p) kw = line_starts_with m p kw"
  by (simp add: line_starts_with_def)

lemma memmove_shift [simp]:
  "memmove (pre @ m) (length pre + d) (length pre + s) k = pre @ memmove m d s k"
proof (rule nth_equalityI)
  show "length (memmove (pre @ m) (length pre + d) (length pre + s) k) = length (pre @ memmove m d s k)"
    by simp
next
  fix i assume "i < length (memmove (pre @ m) (length pre + d) (length pre + s) k)"
  then have i: "i < length pre + length m" by simp
  show "memmove (pre @ m) (length pre + d) (length pre + s) k ! i = (pre @ memmove m d s k) ! i"
  proof (cases "i < length pre")
    case True
    then show ?thesis using i by (simp add: memmove_def nth_append)
  next
    case False
    then obtain j where j: "i = length pre + j" "j < length m" using i
      by (metis add_diff_inverse_nat nat_add_left_cancel_less)
    have L: "memmove (pre @ m) (length pre + d) (length pre + s) k ! i =
              (if d \<le> j \<and> j < d + k then peek (pre @ m) (length pre + (s + (j - d))) else m ! j)"
      unfolding memmove_def using j by (simp add: nth_append add.assoc)
    have R: "(pre @ memmove m d s k) ! i =
              (if d \<le> j \<and> j < d + k then peek m (s + (j - d)) else m ! j)"
      unfolding memmove_def using j by (simp add: nth_append)
    show ?thesis unfolding L R peek_shift ..
  qed
qed

lemma strtrim_shift [simp]: "strtrim (pre @ m) (length pre + p) = pre @ strtrim m p"
proof -
  have a: "length pre + p + k = length pre + (p + k)" for k by simp
  show ?thesis
    unfolding strtrim_def Let_def cstr_shift a strlen_shift memmove_shift poke_shift
    by (simp add: if_distrib[of "\<lambda>x. pre @ x"] cong: if_cong)
qed


lemma strtok_shift:
  "strtok (pre @ m) (map_option (\<lambda>q. length pre + q) str) d (length pre + olds) =
     (case strtok m str d olds of
        (t, m', o') \<Rightarrow> (map_option (\<lambda>q. length pre + q) t, pre @ m', length pre + o'))"
proof -
  have a: "length pre + p + k = length pre + (p + k)" for p k by simp
  have s0: "(case map_option (\<lambda>q. length pre + q) str of Some p \<Rightarrow> p | None \<Rightarrow> length pre + olds) =
            length pre + (case str of Some p \<Rightarrow> p | None \<Rightarrow> olds)"
    by (cases str) simp_all
  show ?thesis
    unfolding strtok_def Let_def s0 strspn_shift a peek_shift strcspn_shift poke_shift
    by simp
qed

lemma strtok_Some_olds: "strtok m (Some p) d o1 = strtok m (Some p) d o2"
  by (simp add: strtok_def)

lemma skip_quote_shift [simp]: "skip_quote (pre @ m) (length pre + t) = length pre + skip_quote m t"
  by (simp add: skip_quote_def)

lemma cut_token_shift:
  assumes "b \<or> 1 \<le> t + strlen m t"
  shows "cut_token (pre @ m) (length pre + t) b = pre @ cut_token m t b"
proof (cases b)
  case True
  have a: "length pre + t + k = length pre + (t + k)" for k by simp
  show ?thesis using True unfolding cut_token_def strcspn_shift a poke_shift by simp
next
  case False
  with assms have "1 \<le> t + strlen m t" by simp
  then have a: "length pre + t + strlen m t - 1 = length pre + (t + strlen m t - 1)" by simp
  show ?thesis using False unfolding cut_token_def Let_def strlen_shift a peek_shift poke_shift by simp
qed

lemma parse_tokens_shift:
  "(\<And>t0. token = Some t0 \<Longrightarrow> cstr m t0 \<noteq> []) \<Longrightarrow>
   parse_tokens (pre @ m) (map_option (\<lambda>q. length pre + q) token) (length pre + olds) dl b =
     (case parse_tokens m token olds dl b of (dl', m') \<Rightarrow> (dl', pre @ m'))"
proof (induction m token olds dl b rule: parse_tokens.induct)
  case (1 m olds deplist stripdeps)
  show ?case by simp
next
  case (2 m token0 olds deplist stripdeps)
  define token where "token = skip_quote m token0"
  define m1 where "m1 = cut_token m token stripdeps"
  define dl1 where "dl1 = add_token deplist (cstr m1 token)"
  have ne: "cstr m token0 \<noteq> []" using "2.prems" by simp
  have "token + length (cstr m token) = token0 + length (cstr m token0)"
    unfolding token_def using skip_quote_cstr[OF ne] by blast
  moreover have "1 \<le> length (cstr m token0)" using ne by (simp add: Suc_le_eq)
  ultimately have ok: "stripdeps \<or> 1 \<le> token + strlen m token" by (simp add: strlen_def)
  have cs: "cut_token (pre @ m) (length pre + token) stripdeps = pre @ m1"
    unfolding m1_def using ok by (rule cut_token_shift)
  obtain t2 m2 o2 where st: "strtok m1 None token_delims olds = (t2, m2, o2)" by (metis prod_cases3)
  have st': "strtok (pre @ m1) None token_delims (length pre + olds) =
               (map_option (\<lambda>q. length pre + q) t2, pre @ m2, length pre + o2)"
    using strtok_shift[of pre m1 None token_delims olds] st by simp
  note tk = strtok_tokens[where ?s0.0=olds and str=None and olds=olds and m=m1, simplified, unfolded st]
  have pre: "\<And>t0. t2 = Some t0 \<Longrightarrow> cstr m2 t0 \<noteq> []" using tk by (auto simp: resumes_def)
  have pt: "parse_tokens m (Some token0) olds deplist stripdeps = parse_tokens m2 t2 o2 dl1 stripdeps"
    using st by (simp add: Let_def token_def m1_def dl1_def)
  have pt': "parse_tokens (pre @ m) (Some (length pre + token0)) (length pre + olds) deplist stripdeps =
             parse_tokens (pre @ m2) (map_option (\<lambda>q. length pre + q) t2) (length pre + o2) dl1 stripdeps"
    using st' cs by (simp add: Let_def token_def[symmetric] dl1_def)
  have IH: "parse_tokens (pre @ m2) (map_option (\<lambda>q. length pre + q) t2) (length pre + o2) dl1 stripdeps =
     (case parse_tokens m2 t2 o2 dl1 stripdeps of (dl', m') \<Rightarrow> (dl', pre @ m'))"
    using "2.IH"[OF token_def m1_def dl1_def st[symmetric] refl pre] by simp
  show ?case unfolding pt using pt' IH by simp
qed

lemma parse_bash_array_shift:
  "parse_bash_array dl (pre @ m) (length pre + p) b =
     (case parse_bash_array dl m p b of (dl', m') \<Rightarrow> (dl', pre @ m'))"
proof -
  obtain t m1 o1 where st: "strtok m (Some p) token_delims 0 = (t, m1, o1)" by (metis prod_cases3)
  have "strtok (pre @ m) (Some (length pre + p)) token_delims (length pre + 0) =
               (map_option (\<lambda>q. length pre + q) t, pre @ m1, length pre + o1)"
    using strtok_shift[of pre m "Some p" token_delims 0] st by simp
  then have st': "strtok (pre @ m) (Some (length pre + p)) token_delims 0 =
               (map_option (\<lambda>q. length pre + q) t, pre @ m1, length pre + o1)"
    using strtok_Some_olds by metis
  note tk = strtok_tokens[where ?s0.0=p and str="Some p" and olds=0 and m=m, simplified, unfolded st]
  have pre: "\<And>t0. t = Some t0 \<Longrightarrow> cstr m1 t0 \<noteq> []" using tk by (auto simp: resumes_def)
  show ?thesis unfolding parse_bash_array_def st st' using parse_tokens_shift[OF pre] by simp
qed


lemma array_bounds_shift:
  "array_bounds (pre @ m) (length pre + p) =
     map_sum id (\<lambda>(arrayend, m2, deparray). (length pre + arrayend, pre @ m2, length pre + deparray))
       (array_bounds m p)"
proof (cases "strchr m p (CHR '')'')")
  case None
  then show ?thesis by (simp add: array_bounds_def)
next
  case (Some arrayend)
  have 1: "strchr (pre @ m) (length pre + p) (CHR '')'') = Some (length pre + arrayend)"
    using Some by simp
  show ?thesis
  proof (cases "strchr (poke m arrayend NUL) p (CHR ''('')")
    case None
    then show ?thesis unfolding array_bounds_def 1 Some by (simp add: Let_def)
  next
    case P: (Some paren)
    have a: "length pre + paren + 1 = length pre + (paren + 1)" by simp
    show ?thesis unfolding array_bounds_def 1 Some using P by (simp add: Let_def)
  qed
qed

lemma pkgbuild_get_deps_turn_shift:
  "pkgbuild_get_deps_turn (pre @ m) (length pre + p) dl =
     map_sum id (\<lambda>(m', bptr', dl'). (pre @ m', map_option (\<lambda>q. length pre + q) bptr', dl'))
       (pkgbuild_get_deps_turn m p dl)"
proof -
  define m1 where "m1 = strtrim m p"
  have a: "length pre + arrayend + 1 = length pre + (arrayend + 1)" for arrayend by simp
  show ?thesis
    unfolding pkgbuild_get_deps_turn_def Let_def strtrim_shift line_starts_with_shift
      strchr_shift array_bounds_shift m1_def[symmetric]
    by (cases "array_bounds m1 p")
       (auto simp: parse_bash_array_shift split: prod.splits)
qed

lemma populate_pkg_deps_turn_shift:
  "populate_pkg_deps_turn (pre @ m) (length pre + p) pkg =
     map_sum id (\<lambda>(m', bptr', pkg'). (pre @ m', map_option (\<lambda>q. length pre + q) bptr', pkg'))
       (populate_pkg_deps_turn m p pkg)"
proof -
  define m1 where "m1 = strtrim m p"
  have sd: "select_deplist (pre @ m1) (length pre + p) = select_deplist m1 p"
    by (simp add: select_deplist_def)
  show ?thesis
    unfolding populate_pkg_deps_turn_def Let_def strtrim_shift sd
      strchr_shift array_bounds_shift m1_def[symmetric]
    by (cases "array_bounds m1 p"; cases "select_deplist m1 p")
       (auto simp: parse_bash_array_shift split: prod.splits)
qed

lemma pkgbuild_get_deps_loop_shift:
  "pkgbuild_get_deps_loop (pre @ m) (map_option (\<lambda>q. length pre + q) bptr) dl =
     map_sum id (\<lambda>(dl', m'). (dl', pre @ m')) (pkgbuild_get_deps_loop m bptr dl)"
proof (induction m bptr dl rule: pkgbuild_get_deps_loop.induct)
  case (1 m deplist)
  show ?case by simp
next
  case (2 m bptr deplist)
  show ?case
  proof (cases "strchr m bptr (CHR 0x0A)")
    case None
    then show ?thesis by simp
  next
    case (Some nl)
    have nl': "strchr (pre @ m) (length pre + bptr) (CHR 0x0A) = Some (length pre + nl)"
      using Some by simp
    have a: "length pre + nl + 1 = length pre + (nl + 1)" by simp
    show ?thesis
    proof (cases "pkgbuild_get_deps_turn m (nl + 1) deplist")
      case (Inl f)
      then show ?thesis
        using Some nl' pkgbuild_get_deps_turn_shift[of pre m "nl + 1" deplist] by (simp add: a)
    next
      case (Inr r)
      obtain m' bptr' dl' where r: "r = (m', bptr', dl')" by (metis prod_cases3)
      have L: "pkgbuild_get_deps_loop (pre @ m) (Some (length pre + bptr)) deplist =
               pkgbuild_get_deps_loop (pre @ m') (map_option (\<lambda>q. length pre + q) bptr') dl'"
        using nl' pkgbuild_get_deps_turn_shift[of pre m "nl + 1" deplist] Inr r by (simp add: a)
      have R: "pkgbuild_get_deps_loop m (Some bptr) deplist = pkgbuild_get_deps_loop m' bptr' dl'"
        using Some Inr r by simp
      show ?thesis using "2.IH"[OF Some Inr[unfolded r] refl refl] L R by simp
    qed
  qed
qed

lemma populate_pkg_deps_loop_shift:
  "populate_pkg_deps_loop (pre @ m) (map_option (\<lambda>q. length pre + q) bptr) pkg =
     map_sum id (\<lambda>(pkg', m'). (pkg', pre @ m')) (populate_pkg_deps_loop m bptr pkg)"
proof (induction m bptr pkg rule: populate_pkg_deps_loop.induct)
  case (1 m pkg)
  show ?case by simp
next
  case (2 m bptr pkg)
  show ?case
  proof (cases "strchr m bptr (CHR 0x0A)")
    case None
    then show ?thesis by simp
  next
    case (Some nl)
    have nl': "strchr (pre @ m) (length pre + bptr) (CHR 0x0A) = Some (length pre + nl)"
      using Some by simp
    have a: "length pre + nl + 1 = length pre + (nl + 1)" by simp
    show ?thesis
    proof (cases "populate_pkg_deps_turn m (nl + 1) pkg")
      case (Inl f)
      then show ?thesis
        using Some nl' populate_pkg_deps_turn_shift[of pre m "nl + 1" pkg] by (simp add: a)
    next
      case (Inr r)
      obtain m' bptr' pkg' where r: "r = (m', bptr', pkg')" by (metis prod_cases3)
      have L: "populate_pkg_deps_loop (pre @ m) (Some (length pre + bptr)) pkg =
               populate_pkg_deps_loop (pre @ m') (map_option (\<lambda>q. length pre + q) bptr') pkg'"
        using nl' populate_pkg_deps_turn_shift[of pre m "nl + 1" pkg] Inr r by (simp add: a)
      have R: "populate_pkg_deps_loop m (Some bptr) pkg = populate_pkg_deps_loop m' bptr' pkg'"
        using Some Inr r by simp
      show ?thesis using "2.IH"[OF Some Inr[unfolded r] refl refl] L R by simp
    qed
  qed
qed

subsection \<open>The loops\<close>

lemma pkgbuild_get_deps_loop_length:
  "pkgbuild_get_deps_loop m bptr dl = Inr (dl', m') \<Longrightarrow> length m' = length m"
proof (induction m bptr dl rule: pkgbuild_get_deps_loop.induct)
  case (1 m deplist)
  then show ?case by simp
next
  case (2 m bptr deplist)
  from "2.prems" consider (turn) nl m1 b1 d1 where "strchr m bptr (CHR 0x0A) = Some nl"
      "pkgbuild_get_deps_turn m (nl + 1) deplist = Inr (m1, b1, d1)"
      "pkgbuild_get_deps_loop m1 b1 d1 = Inr (dl', m')"
    | (stop) "m' = m"
    by (auto split: option.splits sum.splits)
  then show ?case
  proof cases
    case turn
    from "2.IH"[OF turn(1) turn(2) refl refl turn(3)] pkgbuild_get_deps_turn_facts[OF turn(2)]
    show ?thesis by simp
  next
    case stop
    then show ?thesis by simp
  qed
qed

lemma populate_pkg_deps_loop_length:
  "populate_pkg_deps_loop m bptr pkg = Inr (pkg', m') \<Longrightarrow> length m' = length m"
proof (induction m bptr pkg rule: populate_pkg_deps_loop.induct)
  case (1 m pkg)
  then show ?case by simp
next
  case (2 m bptr pkg)
  from "2.prems" consider (turn) nl m1 b1 p1 where "strchr m bptr (CHR 0x0A) = Some nl"
      "populate_pkg_deps_turn m (nl + 1) pkg = Inr (m1, b1, p1)"
      "populate_pkg_deps_loop m1 b1 p1 = Inr (pkg', m')"
    | (stop) "m' = m"
    by (auto split: option.splits sum.splits)
  then show ?case
  proof cases
    case turn
    from "2.IH"[OF turn(1) turn(2) refl refl turn(3)] populate_pkg_deps_turn_facts[OF turn(2)]
    show ?thesis by simp
  next
    case stop
    then show ?thesis by simp
  qed
qed

lemma takeWhile_neq_append:
  "c \<notin> set xs \<Longrightarrow> takeWhile (\<lambda>x. x \<noteq> c) (xs @ ys) = xs @ takeWhile (\<lambda>x. x \<noteq> c) ys"
  by (induction xs) auto

lemma takeWhile_neq_all: "c \<notin> set xs \<Longrightarrow> takeWhile (\<lambda>x. x \<noteq> c) xs = xs"
  by (induction xs) auto

lemma strchr_None: "c \<noteq> NUL \<Longrightarrow> c \<notin> set (cstr m p) \<Longrightarrow> strchr m p c = None"
  by (simp add: strchr_def strlen_def Let_def takeWhile_neq_all)

lemma strchr_first:
  assumes "c \<notin> set first" "NUL \<notin> set first" "c \<noteq> NUL"
  shows "strchr (first @ c # rest) 0 c = Some (length first)"
proof -
  have cs: "cstr (first @ c # rest) 0 = first @ c # cstr rest 0"
    using assms(2,3) by (simp add: cstr_def takeWhile_neq_append)
  have "takeWhile (\<lambda>x. x \<noteq> c) (first @ c # cstr rest 0) = first"
    using assms(1) by (simp add: takeWhile_neq_append)
  then show ?thesis by (simp add: strchr_def strlen_def Let_def cs)
qed

lemma strchr_at: "c \<noteq> NUL \<Longrightarrow> strchr (first @ c # rest) (length first) c = Some (length first)"
proof -
  assume c: "c \<noteq> NUL"
  have "strchr (c # rest) 0 c = Some 0" using c by (simp add: strchr_def strlen_def cstr_def Let_def)
  then show ?thesis using strchr_shift[of first "c # rest" 0 c] by simp
qed

lemma pkgbuild_get_deps_no_newline:
  "CHR 0x0A \<notin> set (cstr m 0) \<Longrightarrow> pkgbuild_get_deps m = Inr ([], m)"
  by (simp add: pkgbuild_get_deps_def strchr_None)

lemma populate_pkg_deps_no_newline:
  "CHR 0x0A \<notin> set (cstr m 0) \<Longrightarrow> populate_pkg_deps pkg m = Inr (pkg, m)"
  by (simp add: populate_pkg_deps_def strchr_None)

lemma pkgbuild_get_deps_first_line:
  assumes "CHR 0x0A \<notin> set first" "NUL \<notin> set first"
  shows "pkgbuild_get_deps (first @ CHR 0x0A # rest) =
           map_sum id (\<lambda>(dl, m'). (dl, first @ m')) (pkgbuild_get_deps (CHR 0x0A # rest))"
proof -
  let ?m = "first @ CHR 0x0A # rest"
  have "pkgbuild_get_deps_loop ?m (Some 0) [] = pkgbuild_get_deps_loop ?m (Some (length first)) []"
    using strchr_first[OF assms, of rest] strchr_at[of "CHR 0x0A" first rest] by simp
  also have "\<dots> = map_sum id (\<lambda>(dl, m'). (dl, first @ m')) (pkgbuild_get_deps_loop (CHR 0x0A # rest) (Some 0) [])"
    using pkgbuild_get_deps_loop_shift[of first "CHR 0x0A # rest" "Some 0" "[]"] by simp
  finally show ?thesis unfolding pkgbuild_get_deps_def .
qed

lemma populate_pkg_deps_first_line:
  assumes "CHR 0x0A \<notin> set first" "NUL \<notin> set first"
  shows "populate_pkg_deps pkg (first @ CHR 0x0A # rest) =
           map_sum id (\<lambda>(p, m'). (p, first @ m')) (populate_pkg_deps pkg (CHR 0x0A # rest))"
proof -
  let ?m = "first @ CHR 0x0A # rest"
  have "populate_pkg_deps_loop ?m (Some 0) pkg = populate_pkg_deps_loop ?m (Some (length first)) pkg"
    using strchr_first[OF assms, of rest] strchr_at[of "CHR 0x0A" first rest] by simp
  also have "\<dots> = map_sum id (\<lambda>(p, m'). (p, first @ m')) (populate_pkg_deps_loop (CHR 0x0A # rest) (Some 0) pkg)"
    using populate_pkg_deps_loop_shift[of first "CHR 0x0A # rest" "Some 0" pkg] by simp
  finally show ?thesis unfolding populate_pkg_deps_def .
qed

subsection \<open>The extractors on the text of the recipe\<close>

text \<open>What \<open>strtrim\<close> leaves at its pointer.\<close>

lemma cstr_eqI:
  assumes "\<And>j. j < length u \<Longrightarrow> peek m (p + j) = u ! j" "NUL \<notin> set u" "peek m (p + length u) = NUL"
  shows "cstr m p = u"
  using assms
proof (induction u arbitrary: p)
  case Nil
  then show ?case by (simp add: cstr_nil_iff)
next
  case (Cons x u)
  from Cons.prems(1)[of 0] have px: "peek m p = x" by simp
  from Cons.prems(2) have xN: "x \<noteq> NUL" by auto
  with px have lt: "p < length m" by (auto simp: peek_def split: if_splits)
  then have d: "drop p m = m ! p # drop (Suc p) m" by (simp add: Cons_nth_drop_Suc)
  have "cstr m (Suc p) = u"
  proof (rule Cons.IH)
    fix j assume "j < length u"
    then show "peek m (Suc p + j) = u ! j" using Cons.prems(1)[of "Suc j"] by simp
  next
    show "NUL \<notin> set u" using Cons.prems(2) by simp
    show "peek m (Suc p + length u) = NUL" using Cons.prems(3) by simp
  qed
  then show ?case using d px xN lt by (simp add: cstr_def peek_def)
qed

lemma NUL_notin_cstr: "NUL \<notin> set (cstr m p)"
  unfolding cstr_def by (auto dest: set_takeWhileD)

lemma peek_cstr_end: "peek m (p + length (cstr m p)) = NUL"
proof -
  have "cstr m (p + length (cstr m p)) = drop (length (cstr m p)) (cstr m p)" by (rule cstr_add) simp
  then show ?thesis by (simp add: cstr_nil_iff)
qed

lemma peek_memmove:
  "i < length m \<Longrightarrow> dst \<le> i \<Longrightarrow> i < dst + n \<Longrightarrow> peek (memmove m dst src n) i = peek m (src + (i - dst))"
  by (simp add: peek_def memmove_def)

lemma cstr_memmove_down:
  assumes "0 < lead" "lead \<le> length (cstr m p)"
  shows "cstr (memmove m p (p + lead) (strlen m (p + lead) + 1)) p = drop lead (cstr m p)"
proof -
  let ?s = "cstr m p"
  let ?u = "drop lead ?s"
  have u: "cstr m (p + lead) = ?u" using assms(2) by (rule cstr_add)
  have sl: "strlen m (p + lead) = length ?u" by (simp add: strlen_def u)
  have ne: "?s \<noteq> []" using assms by auto
  have le: "p + length ?s \<le> length m" using length_cstr_le[of p m] cstr_nonempty_lt[OF ne] by simp
  show ?thesis unfolding sl
  proof (rule cstr_eqI)
    fix j assume j: "j < length ?u"
    then have "p + j < length m" using le assms by simp
    then have "peek (memmove m p (p + lead) (length ?u + 1)) (p + j) = peek m (p + lead + (p + j - p))"
      using j by (intro peek_memmove) simp_all
    then have "peek (memmove m p (p + lead) (length ?u + 1)) (p + j) = peek m (p + lead + j)" by simp
    also have "\<dots> = cstr m (p + lead) ! j" using j u by (simp add: peek_nth)
    finally show "peek (memmove m p (p + lead) (length ?u + 1)) (p + j) = ?u ! j" using u by simp
  next
    show "NUL \<notin> set ?u" using NUL_notin_cstr[of m "p + lead"] u by simp
  next
    have "p + length ?u < length m" using le assms by simp
    then have "peek (memmove m p (p + lead) (length ?u + 1)) (p + length ?u) = peek m (p + lead + (p + length ?u - p))"
      by (intro peek_memmove) simp_all
    then have "peek (memmove m p (p + lead) (length ?u + 1)) (p + length ?u) = peek m (p + lead + length ?u)" by simp
    also have "\<dots> = NUL" using peek_cstr_end[of m "p + lead"] u by simp
    finally show "peek (memmove m p (p + lead) (length ?u + 1)) (p + length ?u) = NUL" .
  qed
qed

lemma take_rev_dropWhile: "take (length (rev (dropWhile P (rev t)))) t = rev (dropWhile P (rev t))"
proof -
  have "rev t = takeWhile P (rev t) @ dropWhile P (rev t)" by simp
  then have "t = rev (dropWhile P (rev t)) @ rev (takeWhile P (rev t))"
    by (metis rev_append rev_rev_ident)
  then show ?thesis by (metis append_eq_conv_conj)
qed

lemma cstr_strtrim: "cstr (strtrim m p) p = trim (cstr m p)"
proof (cases "cstr m p = []")
  case True
  then show ?thesis by (simp add: strtrim_def trim_def)
next
  case False
  define s where "s = cstr m p"
  define lead where "lead = length (takeWhile isspace s)"
  define m1 where "m1 = (if lead \<noteq> 0 then memmove m p (p + lead) (strlen m (p + lead) + 1) else m)"
  define t where "t = cstr m1 p"
  have st: "strtrim m p = (if t = [] then m1 else poke m1 (p + length (rev (dropWhile isspace (rev t)))) NUL)"
    using False unfolding strtrim_def Let_def s_def[symmetric] lead_def[symmetric] m1_def[symmetric] t_def[symmetric]
    by (simp add: s_def)
  have ll: "lead \<le> length s" unfolding lead_def by (rule length_takeWhile_le)
  have t: "t = dropWhile isspace s"
  proof (cases "lead = 0")
    case True
    then have "takeWhile isspace s = []" by (simp add: lead_def)
    then have "dropWhile isspace s = s" by (metis append_Nil takeWhile_dropWhile_id)
    then show ?thesis using True by (simp add: t_def m1_def s_def)
  next
    case False
    then have "t = drop lead s" unfolding t_def m1_def s_def using cstr_memmove_down[of lead m p] ll
      by (simp add: s_def)
    then show ?thesis by (simp add: lead_def dropWhile_eq_drop)
  qed
  show ?thesis
  proof (cases "t = []")
    case True
    then show ?thesis using st t by (simp add: trim_def s_def t_def)
  next
    case False
    have "cstr (poke m1 (p + length (rev (dropWhile isspace (rev t)))) NUL) p = take (length (rev (dropWhile isspace (rev t)))) (cstr m1 p)"
      using length_dropWhile_le[of isspace "rev t"] by (intro cstr_poke_cut) (simp add: t_def[symmetric])
    also have "\<dots> = rev (dropWhile isspace (rev t))" unfolding t_def[symmetric] by (rule take_rev_dropWhile)
    finally have "cstr (poke m1 (p + length (rev (dropWhile isspace (rev t)))) NUL) p = rev (dropWhile isspace (rev t))" .
    moreover have "strtrim m p = poke m1 (p + length (rev (dropWhile isspace (rev t)))) NUL"
      using False st by simp
    ultimately have "cstr (strtrim m p) p = rev (dropWhile isspace (rev t))" by simp
    then show ?thesis unfolding t trim_def s_def .
  qed
qed

text \<open>
  \<open>parse_bash_array\<close> writes at its tokens and between them, never behind the NUL that
  line 80 (line 111) has put at \<open>arrayend\<close>: the text behind the array is as it was.
\<close>

lemma cstr_bounded:
  assumes "p \<le> E" "peek m E = NUL"
  shows "p + length (cstr m p) \<le> E"
proof (rule ccontr)
  assume "\<not> p + length (cstr m p) \<le> E"
  then have lt: "E - p < length (cstr m p)" using assms(1) by simp
  then have "peek m (p + (E - p)) = cstr m p ! (E - p)" by (rule peek_nth)
  then have "cstr m p ! (E - p) = NUL" using assms by simp
  moreover have "cstr m p ! (E - p) \<in> set (cstr m p)" using lt by simp
  ultimately show False using NUL_notin_cstr[of m p] by simp
qed

lemma peek_poke_NUL: "peek m E = NUL \<Longrightarrow> peek (poke m q NUL) E = NUL"
  by (cases "q = E") (auto simp: peek_def poke_def split: if_splits)

lemma drop_poke: "q \<le> E \<Longrightarrow> drop (Suc E) (poke m q c) = drop (Suc E) m"
  by (simp add: poke_def)

lemma strtok_frame:
  assumes st: "strtok m str d olds = (tok, m', olds')"
    and s0: "(case str of Some p \<Rightarrow> p | None \<Rightarrow> olds) \<le> E"
    and E: "peek m E = NUL"
  shows "olds' \<le> E \<and> (\<forall>t. tok = Some t \<longrightarrow> t \<le> E) \<and> peek m' E = NUL \<and>
         drop (Suc E) m' = drop (Suc E) m"
proof -
  define s0 where "s0 = (case str of Some p \<Rightarrow> p | None \<Rightarrow> olds)"
  define s where "s = s0 + strspn m s0 d"
  define e where "e = s + strcspn m s d"
  have "s0 + length (cstr m s0) \<le> E" using s0 E unfolding s0_def by (rule cstr_bounded)
  then have s: "s \<le> E" using strspn_le[of m s0 d] unfolding s_def by simp
  then have "s + length (cstr m s) \<le> E" using E by (rule cstr_bounded)
  then have e: "e \<le> E" using strcspn_le[of m s d] unfolding e_def by simp
  have u: "strtok m str d olds =
     (if peek m s = NUL then (None, m, s)
      else if peek m e = NUL then (Some s, m, e) else (Some s, poke m e NUL, e + 1))"
    unfolding strtok_def Let_def s0_def[symmetric] s_def[symmetric] e_def[symmetric] ..
  consider (a) "peek m s = NUL" | (b) "peek m s \<noteq> NUL" "peek m e = NUL"
    | (c) "peek m s \<noteq> NUL" "peek m e \<noteq> NUL" by blast
  then show ?thesis
  proof cases
    case a
    then show ?thesis using st u s E by simp
  next
    case b
    then have "tok = Some s" "m' = m" "olds' = e" using st u by simp_all
    then show ?thesis using s e E by simp
  next
    case c
    then have r: "tok = Some s" "m' = poke m e NUL" "olds' = e + 1" using st u by simp_all
    from c(2) E have "e \<noteq> E" by auto
    with e have "e + 1 \<le> E" by simp
    then show ?thesis using r s e E by (simp add: peek_poke_NUL drop_poke)
  qed
qed

lemma NUL_not_quote [simp]: "\<not> is_quote NUL"
  by (simp add: is_quote_def NUL_def)

lemma skip_quote_le: "t0 \<le> E \<Longrightarrow> peek m E = NUL \<Longrightarrow> skip_quote m t0 \<le> E"
proof -
  assume a: "t0 \<le> E" "peek m E = NUL"
  show ?thesis
  proof (cases "is_quote (peek m t0)")
    case True
    with a have "t0 \<noteq> E" by auto
    with a True show ?thesis by (simp add: skip_quote_def)
  next
    case False
    with a show ?thesis by (simp add: skip_quote_def)
  qed
qed

lemma cut_token_frame:
  assumes "token \<le> E" "peek m E = NUL"
  shows "peek (cut_token m token b) E = NUL \<and> drop (Suc E) (cut_token m token b) = drop (Suc E) m"
proof -
  have le: "token + length (cstr m token) \<le> E" using assms by (rule cstr_bounded)
  show ?thesis
  proof (cases b)
    case True
    have "token + strcspn m token strip_chars \<le> E" using le strcspn_le[of m token strip_chars] by simp
    then show ?thesis using True assms by (simp add: cut_token_def peek_poke_NUL drop_poke)
  next
    case False
    have "token + strlen m token - 1 \<le> E" using le by (simp add: strlen_def)
    then show ?thesis using False assms by (simp add: cut_token_def Let_def peek_poke_NUL drop_poke)
  qed
qed

lemma parse_tokens_frame:
  "parse_tokens m tok olds dl b = (dl', m') \<Longrightarrow> olds \<le> E \<Longrightarrow> peek m E = NUL \<Longrightarrow>
   (\<And>t0. tok = Some t0 \<Longrightarrow> t0 \<le> E) \<Longrightarrow> drop (Suc E) m' = drop (Suc E) m"
proof (induction m tok olds dl b arbitrary: dl' m' rule: parse_tokens.induct)
  case (1 m olds deplist stripdeps)
  then show ?case by simp
next
  case (2 m token0 olds deplist stripdeps)
  define token where "token = skip_quote m token0"
  define m1 where "m1 = cut_token m token stripdeps"
  obtain t2 m2 o2 where st: "strtok m1 None token_delims olds = (t2, m2, o2)"
    by (metis prod_cases3)
  have pt: "parse_tokens m2 t2 o2 (add_token deplist (cstr m1 token)) stripdeps = (dl', m')"
    using "2.prems"(1) st by (simp add: Let_def token_def m1_def)
  have tk: "token \<le> E" unfolding token_def using "2.prems"(4)[OF refl] "2.prems"(3) by (rule skip_quote_le)
  note cf = cut_token_frame[OF tk "2.prems"(3), of stripdeps, folded m1_def]
  have "(case None of Some p \<Rightarrow> p | None \<Rightarrow> olds) \<le> E" using "2.prems"(2) by simp
  note sf = strtok_frame[OF st this conjunct1[OF cf]]
  have "drop (Suc E) m' = drop (Suc E) m2"
    using "2.IH"[OF token_def m1_def refl st[symmetric] refl pt] sf by blast
  then show ?case using sf cf by simp
qed

lemma parse_bash_array_frame:
  assumes "parse_bash_array dl m deparray b = (dl', m')" "deparray \<le> E" "peek m E = NUL"
  shows "drop (Suc E) m' = drop (Suc E) m"
proof -
  obtain t m1 o1 where st: "strtok m (Some deparray) token_delims 0 = (t, m1, o1)"
    by (metis prod_cases3)
  have "(case Some deparray of Some p \<Rightarrow> p | None \<Rightarrow> 0) \<le> E" using assms(2) by simp
  note sf = strtok_frame[OF st this assms(3)]
  have pt: "parse_tokens m1 t o1 dl b = (dl', m')" using assms(1) st by (simp add: parse_bash_array_def)
  have "drop (Suc E) m' = drop (Suc E) m1"
    using parse_tokens_frame[OF pt, of E] sf by blast
  then show ?thesis using sf by simp
qed

lemma length_takeWhile_less: "\<exists>x\<in>set xs. \<not> P x \<Longrightarrow> length (takeWhile P xs) < length xs"
  by (induction xs) auto

lemma strchr_text:
  assumes "c \<noteq> NUL"
  shows "strchr m p c =
     (if c \<in> set (cstr m p) then Some (p + length (takeWhile (\<lambda>x. x \<noteq> c) (cstr m p))) else None)"
proof (cases "c \<in> set (cstr m p)")
  case True
  then have "length (takeWhile (\<lambda>x. x \<noteq> c) (cstr m p)) < length (cstr m p)"
    by (intro length_takeWhile_less) auto
  then show ?thesis using True by (simp add: strchr_def strlen_def Let_def)
next
  case False
  then show ?thesis using assms by (simp add: strchr_None)
qed

lemma text_at_strchr:
  assumes "c \<noteq> NUL"
  shows "text_at m (strchr m p c) = dropWhile (\<lambda>x. x \<noteq> c) (cstr m p)"
proof (cases "c \<in> set (cstr m p)")
  case True
  have "cstr m (p + length (takeWhile (\<lambda>x. x \<noteq> c) (cstr m p))) = drop (length (takeWhile (\<lambda>x. x \<noteq> c) (cstr m p))) (cstr m p)"
    by (rule cstr_add) (rule length_takeWhile_le)
  then show ?thesis using True assms by (simp add: strchr_text text_at_def dropWhile_eq_drop)
next
  case False
  then have d: "dropWhile (\<lambda>x. x \<noteq> c) (cstr m p) = []" by (auto simp: dropWhile_eq_Nil_conv)
  have t: "text_at m (strchr m p c) = []" using False assms by (simp add: strchr_text text_at_def)
  show ?thesis unfolding d t ..
qed

lemma cstr_after_char:
  assumes "c \<in> set (cstr m p)"
  shows "cstr m (p + length (takeWhile (\<lambda>x. x \<noteq> c) (cstr m p)) + 1) = tl (dropWhile (\<lambda>x. x \<noteq> c) (cstr m p))"
proof -
  let ?k = "length (takeWhile (\<lambda>x. x \<noteq> c) (cstr m p))"
  have "dropWhile (\<lambda>x. x \<noteq> c) (cstr m p) \<noteq> []" using assms by (simp add: dropWhile_eq_Nil_conv)
  then have "drop ?k (cstr m p) \<noteq> []" by (simp add: dropWhile_eq_drop)
  then have "?k + 1 \<le> length (cstr m p)" by simp
  then have "cstr m (p + (?k + 1)) = drop (?k + 1) (cstr m p)" by (rule cstr_add)
  also have "\<dots> = tl (drop ?k (cstr m p))" by (simp add: drop_Suc tl_drop)
  finally show ?thesis by (simp add: dropWhile_eq_drop add.assoc)
qed


lemma array_parse_text:
  assumes r: "cstr m1 lineptr = r"
  shows "(case array_bounds m1 lineptr of
            Inl f \<Rightarrow> Inl f
          | Inr (arrayend, m2, deparray) \<Rightarrow>
              (case parse_bash_array dl m2 deparray b of
                 (l, m3) \<Rightarrow> Inr (cstr m3 (arrayend + 1), l))) =
         (if CHR '')'' \<notin> set r then Inl NullWrite
          else if CHR ''('' \<notin> set (takeWhile (\<lambda>c. c \<noteq> CHR '')'') r) then Inl WildPointer
          else Inr (tl (dropWhile (\<lambda>c. c \<noteq> CHR '')'') r),
                    extract_by token_delims b dl (array_text r)))"
proof (cases "CHR '')'' \<in> set r")
  case False
  then show ?thesis using r by (simp add: array_bounds_def strchr_text)
next
  case True
  define k where "k = length (takeWhile (\<lambda>c. c \<noteq> CHR '')'') r)"
  define body where "body = takeWhile (\<lambda>c. c \<noteq> CHR '')'') r"
  define m2 where "m2 = poke m1 (lineptr + k) NUL"
  have ae: "strchr m1 lineptr (CHR '')'') = Some (lineptr + k)"
    using True r by (simp add: strchr_text k_def)
  have kl: "k < length r" unfolding k_def using True by (intro length_takeWhile_less) auto
  have lt: "lineptr + k < length m1" using strchr_bounds[OF ae] by simp
  have body: "cstr m2 lineptr = body"
    unfolding m2_def body_def using cstr_poke_cut[of k m1 lineptr] kl r
    by (simp add: k_def takeWhile_eq_take[symmetric])
  have ab: "array_bounds m1 lineptr =
     (case strchr m2 lineptr (CHR ''('') of None \<Rightarrow> Inl WildPointer
      | Some paren \<Rightarrow> Inr (lineptr + k, m2, paren + 1))"
    unfolding array_bounds_def ae m2_def Let_def by simp
  show ?thesis
  proof (cases "CHR ''('' \<in> set body")
    case False
    then show ?thesis using True ab body by (simp add: strchr_text body_def)
  next
    case paren: True
    define j where "j = length (takeWhile (\<lambda>c. c \<noteq> CHR ''('') body)"
    have jl: "j < length body" unfolding j_def using paren by (intro length_takeWhile_less) auto
    have bl: "length body = k" by (simp add: body_def k_def)
    have ab2: "array_bounds m1 lineptr = Inr (lineptr + k, m2, lineptr + j + 1)"
      using ab paren body by (simp add: strchr_text j_def)
    have da: "cstr m2 (lineptr + j + 1) = array_text r"
      using cstr_after_char[of "CHR ''(''" m2 lineptr] paren body
      by (simp add: j_def array_text_def body_def)
    obtain l m3 where pa: "parse_bash_array dl m2 (lineptr + j + 1) b = (l, m3)" by (metis surj_pair)
    have l: "l = extract_by token_delims b dl (array_text r)"
      using parse_bash_array_refines[of dl m2 "lineptr + j + 1" b] pa da by simp
    have pk: "peek m2 (lineptr + k) = NUL" using lt by (simp add: m2_def peek_def poke_def)
    have "lineptr + j + 1 \<le> lineptr + k" using jl bl by simp
    from parse_bash_array_frame[OF pa this pk]
    have "cstr m3 (lineptr + k + 1) = cstr m2 (lineptr + k + 1)" by (simp add: cstr_def)
    also have "\<dots> = cstr m1 (lineptr + k + 1)" unfolding m2_def by (intro cstr_poke_below) simp
    also have "\<dots> = tl (dropWhile (\<lambda>c. c \<noteq> CHR '')'') r)"
      using cstr_after_char[of "CHR '')''" m1 lineptr] True r by (simp add: k_def)
    finally have c3: "cstr m3 (lineptr + k + 1) = tl (dropWhile (\<lambda>c. c \<noteq> CHR '')'') r)" .
    show ?thesis using True paren ab2 pa l c3 by (simp add: body_def)
  qed
qed


lemma line_starts_with_begins0: "line_starts_with m p kw = 0 \<longleftrightarrow> begins (cstr m p) kw"
  by (simp add: line_starts_with_def begins_def)


text \<open>The loops compute what the functions on strings say.\<close>

lemma select_deplist_keyword: "select_deplist m p = keyword_of (cstr m p)"
  by (simp add: select_deplist_def keyword_of_def line_starts_with_begins0)

lemma populate_pkg_deps_turn_text:
  "map_sum id (\<lambda>(m', bptr', pkg'). (text_at m' bptr', pkg')) (populate_pkg_deps_turn m lineptr pkg) =
     (let rest = trim (cstr m lineptr)
      in (case keyword_of rest of
            None \<Rightarrow> Inr (dropWhile (\<lambda>c. c \<noteq> CHR 0x0A) rest, pkg)
          | Some deplist \<Rightarrow>
              if CHR '')'' \<notin> set rest then Inl NullWrite
              else if CHR ''('' \<notin> set (takeWhile (\<lambda>c. c \<noteq> CHR '')'') rest) then Inl WildPointer
              else Inr (tl (dropWhile (\<lambda>c. c \<noteq> CHR '')'') rest),
                        assign pkg deplist
                          (extract_by token_delims False (deref pkg deplist) (array_text rest)))))"
proof -
  define m1 where "m1 = strtrim m lineptr"
  define rest where "rest = trim (cstr m lineptr)"
  have r: "cstr m1 lineptr = rest" unfolding m1_def rest_def by (rule cstr_strtrim)
  have sel: "select_deplist m1 lineptr = keyword_of rest" using r by (simp add: select_deplist_keyword)
  show ?thesis
  proof (cases "keyword_of rest")
    case None
    then have "populate_pkg_deps_turn m lineptr pkg = Inr (m1, strchr m1 lineptr (CHR 0x0A), pkg)"
      unfolding populate_pkg_deps_turn_def Let_def m1_def[symmetric] sel by simp
    then show ?thesis using None r text_at_strchr[of "CHR 0x0A" m1 lineptr]
      unfolding Let_def rest_def[symmetric] by simp
  next
    case (Some d)
    then have "populate_pkg_deps_turn m lineptr pkg =
       (case array_bounds m1 lineptr of
          Inl f \<Rightarrow> Inl f
        | Inr (arrayend, m2, deparray) \<Rightarrow>
            (case parse_bash_array (deref pkg d) m2 deparray False of
               (l, m3) \<Rightarrow> Inr (m3, Some (arrayend + 1), assign pkg d l)))"
      unfolding populate_pkg_deps_turn_def Let_def m1_def[symmetric] sel by simp
    then have "map_sum id (\<lambda>(m', bptr', pkg'). (text_at m' bptr', pkg')) (populate_pkg_deps_turn m lineptr pkg) =
       map_sum id (\<lambda>(t, l). (t, assign pkg d l))
        (case array_bounds m1 lineptr of
          Inl f \<Rightarrow> Inl f
        | Inr (arrayend, m2, deparray) \<Rightarrow>
            (case parse_bash_array (deref pkg d) m2 deparray False of
               (l, m3) \<Rightarrow> Inr (cstr m3 (arrayend + 1), l)))"
      by (simp add: text_at_def split: sum.splits prod.splits)
    then show ?thesis
      unfolding array_parse_text[OF r] Let_def rest_def[symmetric] Some by simp
  qed
qed


lemma populate_of_text_step:
  "populate_of_text recipe pkg =
     (if CHR 0x0A \<notin> set recipe then Inr pkg
      else (case (let rest = trim (tl (dropWhile (\<lambda>c. c \<noteq> CHR 0x0A) recipe))
                  in (case keyword_of rest of
                        None \<Rightarrow> Inr (dropWhile (\<lambda>c. c \<noteq> CHR 0x0A) rest, pkg)
                      | Some deplist \<Rightarrow>
                          if CHR '')'' \<notin> set rest then Inl NullWrite
                          else if CHR ''('' \<notin> set (takeWhile (\<lambda>c. c \<noteq> CHR '')'') rest) then Inl WildPointer
                          else Inr (tl (dropWhile (\<lambda>c. c \<noteq> CHR '')'') rest),
                                    assign pkg deplist
                                      (extract_by token_delims False (deref pkg deplist) (array_text rest))))) of
              Inl f \<Rightarrow> Inl f
            | Inr (t', pkg') \<Rightarrow> populate_of_text t' pkg'))"
  by (subst populate_of_text.simps) (simp add: Let_def split: option.splits)


lemma populate_pkg_deps_loop_text:
  "map_sum id fst (populate_pkg_deps_loop m bptr pkg) = populate_of_text (text_at m bptr) pkg"
proof (induction m bptr pkg rule: populate_pkg_deps_loop.induct)
  case (1 m pkg)
  show ?case by (simp add: text_at_def populate_of_text.simps)
next
  case (2 m bptr pkg)
  define t where "t = cstr m bptr"
  have ta: "text_at m (Some bptr) = t" by (simp add: text_at_def t_def)
  show ?case
  proof (cases "CHR 0x0A \<in> set t")
    case False
    then have "strchr m bptr (CHR 0x0A) = None" by (simp add: strchr_text t_def)
    then show ?thesis using False unfolding ta by (subst populate_of_text_step) simp
  next
    case True
    define nl where "nl = bptr + length (takeWhile (\<lambda>x. x \<noteq> CHR 0x0A) t)"
    have nl: "strchr m bptr (CHR 0x0A) = Some nl" using True by (simp add: strchr_text t_def nl_def)
    have ln: "cstr m (nl + 1) = tl (dropWhile (\<lambda>c. c \<noteq> CHR 0x0A) t)"
      unfolding nl_def t_def using True cstr_after_char[of "CHR 0x0A" m bptr] by (simp add: t_def)
    note tt = populate_pkg_deps_turn_text[of m "nl + 1" pkg, unfolded ln]
    show ?thesis
    proof (cases "populate_pkg_deps_turn m (nl + 1) pkg")
      case (Inl f)
      then have "populate_pkg_deps_loop m (Some bptr) pkg = Inl f" using nl by simp
      moreover have "populate_of_text t pkg = Inl f"
        using True tt[symmetric] Inl by (subst populate_of_text_step) simp
      ultimately show ?thesis unfolding ta by simp
    next
      case (Inr r)
      obtain m' bptr' pkg' where r: "r = (m', bptr', pkg')" by (metis prod_cases3)
      have L: "populate_pkg_deps_loop m (Some bptr) pkg = populate_pkg_deps_loop m' bptr' pkg'"
        using nl Inr r by simp
      have R: "populate_of_text t pkg = populate_of_text (text_at m' bptr') pkg'"
        using True tt[symmetric] Inr r by (subst populate_of_text_step) simp
      show ?thesis unfolding ta L R using "2.IH"[OF nl Inr[unfolded r] refl refl] .
    qed
  qed
qed


lemma populate_pkg_deps_text:
  "map_sum id fst (populate_pkg_deps pkg m) = populate_of_text (cstr m 0) pkg"
  unfolding populate_pkg_deps_def using populate_pkg_deps_loop_text[of m "Some 0" pkg]
  by (simp add: text_at_def)

subsection \<open>The claims about the parser\<close>

text \<open>
  Claim C5: an array that is opened and never closed is to be a parse error. Neither
  extractor tests the result of \<open>strchr(lineptr, ')')\<close>: for the recipe
  \<^verbatim>\<open>pkgname=foo\ndepends=(a b\<close> line 80 (line 111 in \<open>populate_pkg_deps\<close>) writes through
  \<open>NULL\<close>. When the unclosed array is on the first line of the text, the line is never
  looked at and the result is the empty list, without any error.
\<close>

theorem unterminated_array_null_write:
  "pkgbuild_get_deps (''pkgname=foo\<newline>depends=(a b'' @ [NUL]) = Inl NullWrite \<and>
   populate_pkg_deps empty_pkg (''pkgname=foo\<newline>depends=(a b'' @ [NUL]) = Inl NullWrite \<and>
   pkgbuild_get_deps (''depends=(a b'' @ [NUL]) = Inr ([], ''depends=(a b'' @ [NUL])"
  by code_simp

lemma map_sum_fst_prefix:
  "map_sum id fst (map_sum id (\<lambda>(x, m'). (x, pre @ m')) r) = map_sum id fst r"
  by (cases r) auto


lemma optdepends_alone:
  "map_sum id fst (populate_pkg_deps empty_pkg (recipe_optdepends @ [NUL])) = Inr empty_pkg"
  by code_simp


lemma populate_after_newline:
  "map_sum id fst (populate_pkg_deps empty_pkg (CHR 0x0A # recipe_optdepends @ [NUL])) =
     Inr (empty_pkg\<lparr>optdepends := [''a:'', ''description'', ''text'']\<rparr>)"
  "map_sum id fst (populate_pkg_deps empty_pkg (CHR 0x0A # recipe_depends @ [NUL])) =
     Inr (empty_pkg\<lparr>depends := [''a'', ''b>=1.0'']\<rparr>)"
  by code_simp+

lemma raw_name_affixes:
  "\<exists>a b. t = a @ raw_name t @ b \<and> length a \<le> 1 \<and> length b \<le> 1 \<and> list_all is_quote (a @ b)"
proof -
  obtain a where a: "t = a @ drop_quote t" "length a \<le> 1" "list_all is_quote a"
  proof (cases t)
    case Nil
    then show ?thesis using that[of "[]"] by (simp add: drop_quote_def)
  next
    case (Cons c cs)
    then show ?thesis using that[of "[c]"] that[of "[]"] by (cases "is_quote c") (simp_all add: drop_quote_def)
  qed
  obtain b where b: "drop_quote t = raw_name t @ b" "length b \<le> 1" "list_all is_quote b"
  proof (cases "drop_quote t \<noteq> [] \<and> is_quote (last (drop_quote t))")
    case True
    then show ?thesis using that[of "[last (drop_quote t)]"] by (simp add: raw_name_def)
  next
    case False
    then show ?thesis using that[of "[]"] by (auto simp: raw_name_def)
  qed
  from a b have "t = a @ raw_name t @ b" by simp
  with a b show ?thesis by auto
qed




text \<open>
  Claim C7, as the code has it. For every buffer and package, \<open>populate_pkg_deps\<close>
  computes what \<open>populate_of_text\<close> says of the text in it: the text up to the first
  newline is passed over; behind it, of each text that begins with \<open>depends=\<close>,
  \<open>makedepends=\<close> or \<open>optdepends=\<close>, what stands between the first \<open>(\<close> and the first \<open>)\<close>
  is cut into tokens at spaces and newlines, whatever the quoting, and the tokens go to
  the list that the keyword names. Each token loses one leading and one trailing quote
  and nothing else: a token \<open>t\<close> is \<open>a @ raw_name t @ b\<close> with \<open>a\<close> and \<open>b\<close> at most one
  quote each, so version constraints stay. Where the text of the array has no
  whitespace but spaces and newlines, the tokens are those of the spec, cut at
  whitespace. With \<^verbatim>\<open>optdepends=('a: description text')\<close> behind a first line, whatever
  that line is, the list is \<open>a:\<close>, \<open>description\<close>, \<open>text\<close>; with
  \<^verbatim>\<open>depends=('a' 'b>=1.0' 'a')\<close> there it is \<open>a\<close>, \<open>b>=1.0\<close>; with nothing before the
  declaration, the package is as it was.
\<close>

theorem raw_mode_extraction:
  "map_sum id fst (populate_pkg_deps pkg m) = populate_of_text (cstr m 0) pkg \<and>
   fst (parse_bash_array deplist m deparray False) =
     extract_by token_delims False deplist (cstr m deparray) \<and>
   (\<exists>a b. t = a @ raw_name t @ b \<and> length a \<le> 1 \<and> length b \<le> 1 \<and> list_all is_quote (a @ b)) \<and>
   (set s \<inter> set whitespace \<subseteq> set token_delims \<longrightarrow>
      extract_by token_delims False deplist s = extract_array False deplist s) \<and>
   (CHR 0x0A \<notin> set first \<and> NUL \<notin> set first \<longrightarrow>
      map_sum id fst (populate_pkg_deps empty_pkg (first @ CHR 0x0A # recipe_optdepends @ [NUL])) =
        Inr (empty_pkg\<lparr>optdepends := [''a:'', ''description'', ''text'']\<rparr>) \<and>
      map_sum id fst (populate_pkg_deps empty_pkg (first @ CHR 0x0A # recipe_depends @ [NUL])) =
        Inr (empty_pkg\<lparr>depends := [''a'', ''b>=1.0'']\<rparr>)) \<and>
   map_sum id fst (populate_pkg_deps empty_pkg (recipe_optdepends @ [NUL])) = Inr empty_pkg"
proof (intro conjI impI)
  show "map_sum id fst (populate_pkg_deps empty_pkg (recipe_optdepends @ [NUL])) = Inr empty_pkg"
    by (rule optdepends_alone)
  show "extract_by token_delims False deplist s = extract_array False deplist s"
    if "set s \<inter> set whitespace \<subseteq> set token_delims"
    using that by (rule extract_by_whitespace)
  show "map_sum id fst (populate_pkg_deps pkg m) = populate_of_text (cstr m 0) pkg"
    by (rule populate_pkg_deps_text)
  show "fst (parse_bash_array deplist m deparray False) =
     extract_by token_delims False deplist (cstr m deparray)"
    by (rule parse_bash_array_refines)
  show "\<exists>a b. t = a @ raw_name t @ b \<and> length a \<le> 1 \<and> length b \<le> 1 \<and> list_all is_quote (a @ b)"
    by (rule raw_name_affixes)
  assume f: "CHR 0x0A \<notin> set first \<and> NUL \<notin> set first"
  show "map_sum id fst (populate_pkg_deps empty_pkg (first @ CHR 0x0A # recipe_optdepends @ [NUL])) =
        Inr (empty_pkg\<lparr>optdepends := [''a:'', ''description'', ''text'']\<rparr>)"
    using f populate_pkg_deps_first_line[of first empty_pkg "recipe_optdepends @ [NUL]"]
    by (simp add: map_sum_fst_prefix populate_after_newline)
  show "map_sum id fst (populate_pkg_deps empty_pkg (first @ CHR 0x0A # recipe_depends @ [NUL])) =
        Inr (empty_pkg\<lparr>depends := [''a'', ''b>=1.0'']\<rparr>)"
    using f populate_pkg_deps_first_line[of first empty_pkg "recipe_depends @ [NUL]"]
    by (simp add: map_sum_fst_prefix populate_after_newline)
qed

text \<open>
  The theorem at the first line \<^verbatim>\<open>pkgname=foo\<close>, followed by
  \<^verbatim>\<open>optdepends=('a: description text')\<close> or by \<^verbatim>\<open>depends=('a' 'b>=1.0' 'a')\<close>. The text
  of the first array has no whitespace but spaces: cut at whitespace, as the spec has
  it, it gives the same three tokens.
\<close>

theorem raw_mode_extraction_witness:
  "set (array_text recipe_optdepends) \<inter> set whitespace \<subseteq> set token_delims \<and>
   CHR 0x0A \<notin> set ''pkgname=foo'' \<and> NUL \<notin> set ''pkgname=foo'' \<and>
   populate_of_text (''pkgname=foo\<newline>'' @ recipe_optdepends) empty_pkg =
     Inr (empty_pkg\<lparr>optdepends := [''a:'', ''description'', ''text'']\<rparr>) \<and>
   extract_array False [] (array_text recipe_optdepends) = [''a:'', ''description'', ''text''] \<and>
   map_sum id fst (populate_pkg_deps empty_pkg (''pkgname=foo'' @ CHR 0x0A # recipe_optdepends @ [NUL])) =
     Inr (empty_pkg\<lparr>optdepends := [''a:'', ''description'', ''text'']\<rparr>) \<and>
   map_sum id fst (populate_pkg_deps empty_pkg (''pkgname=foo'' @ CHR 0x0A # recipe_depends @ [NUL])) =
     Inr (empty_pkg\<lparr>depends := [''a'', ''b>=1.0'']\<rparr>)"
proof -
  have h1: "set (array_text recipe_optdepends) \<inter> set whitespace \<subseteq> set token_delims"
    by code_simp
  have h: "CHR 0x0A \<notin> set ''pkgname=foo'' \<and> NUL \<notin> set ''pkgname=foo''" by (simp add: NUL_def)
  have c: "cstr (''pkgname=foo'' @ CHR 0x0A # recipe_optdepends @ [NUL]) 0 =
             ''pkgname=foo\<newline>'' @ recipe_optdepends" by code_simp
  have e: "extract_by token_delims False [] (array_text recipe_optdepends) =
             [''a:'', ''description'', ''text'']" by code_simp
  note t = raw_mode_extraction[of empty_pkg "''pkgname=foo'' @ CHR 0x0A # recipe_optdepends @ [NUL]"
      "[]" 0 "[]" "array_text recipe_optdepends" "''pkgname=foo''", unfolded c e]
  from t h have r: "map_sum id fst (populate_pkg_deps empty_pkg (''pkgname=foo'' @ CHR 0x0A # recipe_optdepends @ [NUL])) =
        Inr (empty_pkg\<lparr>optdepends := [''a:'', ''description'', ''text'']\<rparr>)"
    and r2: "map_sum id fst (populate_pkg_deps empty_pkg (''pkgname=foo'' @ CHR 0x0A # recipe_depends @ [NUL])) =
        Inr (empty_pkg\<lparr>depends := [''a'', ''b>=1.0'']\<rparr>)" by blast+
  from t have "map_sum id fst (populate_pkg_deps empty_pkg (''pkgname=foo'' @ CHR 0x0A # recipe_optdepends @ [NUL])) =
     populate_of_text (''pkgname=foo\<newline>'' @ recipe_optdepends) empty_pkg" by (rule conjunct1)
  then have d: "populate_of_text (''pkgname=foo\<newline>'' @ recipe_optdepends) empty_pkg =
     Inr (empty_pkg\<lparr>optdepends := [''a:'', ''description'', ''text'']\<rparr>)"
    unfolding r by (rule sym)
  from t h1 have "[''a:'', ''description'', ''text''] = extract_array False [] (array_text recipe_optdepends)"
    by blast
  then have x: "extract_array False [] (array_text recipe_optdepends) = [''a:'', ''description'', ''text'']"
    by (rule sym)
  show ?thesis using h1 h d x r r2 by blast
qed

text \<open>
  Claim C7 as stated has \<^verbatim>\<open>optdepends=('a: description text')\<close> kept as one token with
  its description. As the whole recipe text it has no newline, and nothing is
  extracted. Behind a newline, \<open>strtok\<close> is given the space as a delimiter and knows
  nothing of quotes: the element becomes the three tokens \<open>a:\<close>, \<open>description\<close> and
  \<open>text\<close>.
\<close>

theorem quoted_description_is_split:
  "map_sum id fst (populate_pkg_deps empty_pkg (recipe_optdepends @ [NUL])) = Inr empty_pkg \<and>
   map_sum id fst (populate_pkg_deps empty_pkg (CHR 0x0A # recipe_optdepends @ [NUL])) =
     Inr (empty_pkg\<lparr>optdepends := [''a:'', ''description'', ''text'']\<rparr>)"
  by code_simp

lemma buffer_example:
  "pkgbuild_get_deps (''pkgname=foo\<newline>depends=(a)'' @ [NUL]) =
     Inr ([''a''], ''pkgname=foo\<newline>depends=(a'' @ [NUL, NUL]) \<and>
   populate_pkg_deps empty_pkg (''pkgname=foo\<newline>depends=(a)'' @ [NUL]) =
     Inr (empty_pkg\<lparr>depends := [''a'']\<rparr>, ''pkgname=foo\<newline>depends=(a'' @ [NUL, NUL])"
  by code_simp

text \<open>
  Claim C9 as stated has the buffer unchanged by the parser. Both extractors write
  into it: here the closing parenthesis of the array has become a NUL.
\<close>

theorem parser_writes_into_buffer:
  "pkgbuild_get_deps (''pkgname=foo\<newline>depends=(a)'' @ [NUL]) =
     Inr ([''a''], ''pkgname=foo\<newline>depends=(a'' @ [NUL, NUL]) \<and>
   populate_pkg_deps empty_pkg (''pkgname=foo\<newline>depends=(a)'' @ [NUL]) =
     Inr (empty_pkg\<lparr>depends := [''a'']\<rparr>, ''pkgname=foo\<newline>depends=(a'' @ [NUL, NUL]) \<and>
   ''pkgname=foo\<newline>depends=(a'' @ [NUL, NUL] \<noteq> ''pkgname=foo\<newline>depends=(a)'' @ [NUL]"
proof -
  have "''pkgname=foo\<newline>depends=(a'' @ [NUL, NUL] \<noteq> ''pkgname=foo\<newline>depends=(a)'' @ [NUL]"
    by (simp add: NUL_def)
  with buffer_example show ?thesis by blast
qed

lemma first_line_split:
  obtains (stop) "CHR 0x0A \<notin> set (cstr m 0)"
  | (line) rest where "m = first_line m @ CHR 0x0A # rest"
proof -
  define f where "f = first_line m"
  define r where "r = dropWhile (\<lambda>c. c \<noteq> CHR 0x0A \<and> c \<noteq> NUL) m"
  have m: "m = f @ r" unfolding f_def r_def first_line_def by simp
  have fn: "CHR 0x0A \<notin> set f" "NUL \<notin> set f"
    unfolding f_def first_line_def by (auto dest: set_takeWhileD)
  show ?thesis
  proof (cases r)
    case Nil
    then have "cstr m 0 = f" using m fn(2) by (simp add: cstr_def takeWhile_neq_all)
    then show ?thesis using fn(1) stop by simp
  next
    case (Cons c rest)
    have "r \<noteq> []" using Cons by simp
    then have "\<not> (hd r \<noteq> CHR 0x0A \<and> hd r \<noteq> NUL)"
      unfolding r_def by (rule hd_dropWhile)
    then consider "c = CHR 0x0A" | "c = NUL" using Cons by auto
    then show ?thesis
    proof cases
      case 1
      have "m = f @ CHR 0x0A # rest" using m unfolding Cons 1 .
      then have "m = first_line m @ CHR 0x0A # rest" unfolding f_def .
      then show ?thesis by (rule line)
    next
      case 2
      then have "cstr m 0 = f" using m Cons fn(2) by (simp add: cstr_def takeWhile_neq_append)
      then show ?thesis using fn(1) stop by simp
    qed
  qed
qed

lemma first_line_clean: "CHR 0x0A \<notin> set (first_line m)" "NUL \<notin> set (first_line m)"
  unfolding first_line_def by (auto dest: set_takeWhileD)

lemma first_line_prefix: "take (length (first_line m)) m = first_line m"
  unfolding first_line_def by (rule takeWhile_eq_take[symmetric])

text \<open>
  Claim C9, as the code has it. Both extractors work in place in the caller's buffer:
  whenever they return, the buffer has the size it had, and its first line (the bytes
  before the first newline) is as it was. What follows the first newline may be
  changed: \<open>strtrim\<close> moves text, and NULs are written over the closing parenthesis, the
  delimiters and the cut points of the tokens.
\<close>

theorem parser_buffer_frame:
  "(pkgbuild_get_deps m = Inr (dl, m') \<longrightarrow>
      length m' = length m \<and> take (length (first_line m)) m' = first_line m) \<and>
   (populate_pkg_deps pkg m = Inr (pkg', m'') \<longrightarrow>
      length m'' = length m \<and> take (length (first_line m)) m'' = first_line m)"
proof (intro conjI impI)
  assume a: "pkgbuild_get_deps m = Inr (dl, m')"
  then show "length m' = length m"
    unfolding pkgbuild_get_deps_def by (rule pkgbuild_get_deps_loop_length)
  show "take (length (first_line m)) m' = first_line m"
  proof (cases m rule: first_line_split)
    case stop
    then have "m' = m" using a pkgbuild_get_deps_no_newline by simp
    then show ?thesis by (simp add: first_line_prefix)
  next
    case (line rest)
    obtain r where "pkgbuild_get_deps (CHR 0x0A # rest) = Inr r \<and> (dl, m') = (\<lambda>(dl, m'). (dl, first_line m @ m')) r"
      using a pkgbuild_get_deps_first_line[OF first_line_clean, where rest=rest and m1=m] line
      by (cases "pkgbuild_get_deps (CHR 0x0A # rest)") auto
    then show ?thesis by (cases r) auto
  qed
next
  assume a: "populate_pkg_deps pkg m = Inr (pkg', m'')"
  then show "length m'' = length m"
    unfolding populate_pkg_deps_def by (rule populate_pkg_deps_loop_length)
  show "take (length (first_line m)) m'' = first_line m"
  proof (cases m rule: first_line_split)
    case stop
    then have "m'' = m" using a populate_pkg_deps_no_newline by simp
    then show ?thesis by (simp add: first_line_prefix)
  next
    case (line rest)
    obtain r where "populate_pkg_deps pkg (CHR 0x0A # rest) = Inr r \<and> (pkg', m'') = (\<lambda>(p, m'). (p, first_line m @ m')) r"
      using a populate_pkg_deps_first_line[OF first_line_clean, where pkg=pkg and rest=rest and m1=m] line
      by (cases "populate_pkg_deps pkg (CHR 0x0A # rest)") auto
    then show ?thesis by (cases r) auto
  qed
qed


text \<open>
  The theorem at the buffer of the recipe \<^verbatim>\<open>pkgname=foo\ndepends=(a)\<close>.
\<close>

theorem parser_buffer_frame_witness:
  "pkgbuild_get_deps (''pkgname=foo\<newline>depends=(a)'' @ [NUL]) =
     Inr ([''a''], ''pkgname=foo\<newline>depends=(a'' @ [NUL, NUL]) \<and>
   populate_pkg_deps empty_pkg (''pkgname=foo\<newline>depends=(a)'' @ [NUL]) =
     Inr (empty_pkg\<lparr>depends := [''a'']\<rparr>, ''pkgname=foo\<newline>depends=(a'' @ [NUL, NUL]) \<and>
   first_line (''pkgname=foo\<newline>depends=(a)'' @ [NUL]) = ''pkgname=foo'' \<and>
   length (''pkgname=foo\<newline>depends=(a'' @ [NUL, NUL]) =
     length (''pkgname=foo\<newline>depends=(a)'' @ [NUL]) \<and>
   take (length (first_line (''pkgname=foo\<newline>depends=(a)'' @ [NUL])))
     (''pkgname=foo\<newline>depends=(a'' @ [NUL, NUL]) =
     first_line (''pkgname=foo\<newline>depends=(a)'' @ [NUL])"
proof -
  have f: "first_line (''pkgname=foo\<newline>depends=(a)'' @ [NUL]) = ''pkgname=foo''"
    by code_simp
  note t = parser_buffer_frame[of "''pkgname=foo\<newline>depends=(a)'' @ [NUL]" "[''a'']"
      "''pkgname=foo\<newline>depends=(a'' @ [NUL, NUL]" empty_pkg
      "empty_pkg\<lparr>depends := [''a'']\<rparr>" "''pkgname=foo\<newline>depends=(a'' @ [NUL, NUL]"]
  show ?thesis using buffer_example f t by blast
qed

text \<open>
  Claim C10: both extractors start with \<open>strchr(bptr, '\n')\<close> and look at what follows.
  A text without a newline gives the empty list (the package unchanged) and an untouched
  buffer, whatever it declares. With a newline, the result is the result for the text
  with the first line taken away, and the bytes of the first line stay as they were:
  nothing of the first line reaches the extracted set.
\<close>

theorem first_line_never_examined:
  assumes "CHR 0x0A \<notin> set first" and "NUL \<notin> set first"
  shows "pkgbuild_get_deps (first @ [NUL]) = Inr ([], first @ [NUL]) \<and>
         populate_pkg_deps pkg (first @ [NUL]) = Inr (pkg, first @ [NUL]) \<and>
         pkgbuild_get_deps (first @ CHR 0x0A # rest) =
           map_sum id (\<lambda>(dl, m'). (dl, first @ m')) (pkgbuild_get_deps (CHR 0x0A # rest)) \<and>
         populate_pkg_deps pkg (first @ CHR 0x0A # rest) =
           map_sum id (\<lambda>(p, m'). (p, first @ m')) (populate_pkg_deps pkg (CHR 0x0A # rest))"
proof -
  have "cstr (first @ [NUL]) 0 = first"
    using assms(2) by (simp add: cstr_def takeWhile_neq_append)
  then have n: "CHR 0x0A \<notin> set (cstr (first @ [NUL]) 0)" using assms(1) by simp
  show ?thesis
    using pkgbuild_get_deps_no_newline[OF n] populate_pkg_deps_no_newline[OF n]
      pkgbuild_get_deps_first_line[OF assms] populate_pkg_deps_first_line[OF assms]
    by blast
qed

text \<open>
  The theorem at the text \<^verbatim>\<open>depends=(a)\ndepends=(b)\<close>: only \<open>b\<close> is extracted.
\<close>

theorem first_line_never_examined_witness:
  "CHR 0x0A \<notin> set ''depends=(a)'' \<and> NUL \<notin> set ''depends=(a)'' \<and>
   pkgbuild_get_deps (''depends=(a)'' @ [NUL]) = Inr ([], ''depends=(a)'' @ [NUL]) \<and>
   populate_pkg_deps empty_pkg (''depends=(a)'' @ [NUL]) = Inr (empty_pkg, ''depends=(a)'' @ [NUL]) \<and>
   pkgbuild_get_deps (''depends=(a)'' @ CHR 0x0A # ''depends=(b)'' @ [NUL]) =
     Inr ([''b''], ''depends=(a)'' @ CHR 0x0A # ''depends=(b'' @ [NUL, NUL]) \<and>
   populate_pkg_deps empty_pkg (''depends=(a)'' @ CHR 0x0A # ''depends=(b)'' @ [NUL]) =
     Inr (empty_pkg\<lparr>depends := [''b'']\<rparr>, ''depends=(a)'' @ CHR 0x0A # ''depends=(b'' @ [NUL, NUL])"
proof -
  have h1: "CHR 0x0A \<notin> set ''depends=(a)''" by simp
  have h2: "NUL \<notin> set ''depends=(a)''" by (simp add: NUL_def)
  have e1: "pkgbuild_get_deps (CHR 0x0A # ''depends=(b)'' @ [NUL]) =
              Inr ([''b''], CHR 0x0A # ''depends=(b'' @ [NUL, NUL])"
    by code_simp
  have e2: "populate_pkg_deps empty_pkg (CHR 0x0A # ''depends=(b)'' @ [NUL]) =
              Inr (empty_pkg\<lparr>depends := [''b'']\<rparr>, CHR 0x0A # ''depends=(b'' @ [NUL, NUL])"
    by code_simp
  note t = first_line_never_examined[OF h1 h2, of empty_pkg "''depends=(b)'' @ [NUL]"]
  show ?thesis using h1 h2 t unfolding e1 e2 by simp
qed

end
